theory Spec2Isabelle
  imports Main "HOL-Library.Product_Lexorder"
begin

section \<open>Data model of \<^verbatim>\<open>mesa/space/grid.py\<close>\<close>

text \<open>
  Agents are Python objects compared by identity (\<^verbatim>\<open>list.remove\<close> uses \<^verbatim>\<open>==\<close>, which
  is identity for agents); an agent is modelled by its identity, a natural number.
  A coordinate is a tuple of two unbounded Python integers; tuples compare
  lexicographically, which is the order of \<open>Product_Lexorder\<close>.
\<close>

type_synonym agent = nat
type_synonym Coordinate = "int \<times> int"
type_synonym GridContent = "agent list"
type_synonym cache_key = "Coordinate \<times> bool \<times> bool \<times> int"

text \<open>
  The grid raises plain \<^verbatim>\<open>Exception\<close> objects that differ in their message only:
  \<open>OutOfBounds\<close> is "Point out of bounds, and space non-toroidal." (\<^verbatim>\<open>torus_adj\<close>),
  \<open>CellOccupied\<close> is "Cell not empty" (\<^verbatim>\<open>SingleGrid.place_agent\<close>), \<open>GridFull\<close> is
  "ERROR: No empty cells" (\<^verbatim>\<open>move_to_empty\<close>) and "ERROR: Grid full"
  (\<^verbatim>\<open>position_agent\<close>). The other constructors are the built-in exceptions of the
  Python operations the code uses: indexing a list out of range, \<^verbatim>\<open>list.remove\<close> of
  an absent element, unpacking \<^verbatim>\<open>None\<close>, \<^verbatim>\<open>%\<close> by zero, calling a method the class
  does not have.
\<close>

datatype error =
  OutOfBounds | CellOccupied | GridFull
  | IndexError | ValueError | TypeError | ZeroDivisionError | AttributeError

text \<open>The three classes: \<^verbatim>\<open>MultiGrid\<close>, \<^verbatim>\<open>SingleGrid(MultiGrid)\<close>, \<^verbatim>\<open>Grid(SingleGrid)\<close>.\<close>

datatype grid_class = MultiGrid | SingleGrid | Grid

text \<open>
  The state: the fields of the grid object (\<open>cells\<close> is \<^verbatim>\<open>_grid\<close>, a list of columns,
  each a list of cells, each a list of agents; \<open>empties_set\<close> is \<^verbatim>\<open>_empties\<close>;
  \<open>all_cells_set\<close> is \<^verbatim>\<open>_all_cells\<close>; \<open>neighborhood_cache\<close> is
  \<^verbatim>\<open>_neighborhood_cache\<close>), the class of the object (\<open>cls\<close>, which decides which
  \<^verbatim>\<open>place_agent\<close> a call of \<^verbatim>\<open>self.place_agent\<close> reaches), and the store of the
  \<^verbatim>\<open>pos\<close> attribute of every agent object (\<open>agent_pos\<close>, \<open>None\<close> for Python's
  \<^verbatim>\<open>None\<close>).
\<close>

record world =
  cls :: grid_class
  height :: int
  width :: int
  torus :: bool
  cells :: "GridContent list list"
  empties_set :: "Coordinate set"
  all_cells_set :: "Coordinate set"
  neighborhood_cache :: "cache_key \<rightharpoonup> Coordinate list"
  agent_pos :: "agent \<Rightarrow> Coordinate option"

text \<open>
  An operation that raises returns \<open>Inl\<close> of the exception and of the state at the
  moment of the raise (Python keeps every mutation made before it).
\<close>

type_synonym 'a result = "(error \<times> world) + 'a"

section \<open>Construction\<close>

text \<open>
  \<^verbatim>\<open>MultiGrid.__init__\<close> (the subclasses call it unchanged). \<^verbatim>\<open>range(n)\<close> is
  \<open>[0..n - 1]\<close>, empty when \<open>n \<le> 0\<close>. The agents exist before the grid: their \<^verbatim>\<open>pos\<close>
  attributes are the parameter \<open>ap\<close>.
\<close>

definition grid_init ::
  "grid_class \<Rightarrow> int \<Rightarrow> int \<Rightarrow> bool \<Rightarrow> (agent \<Rightarrow> Coordinate option) \<Rightarrow> world" where
  "grid_init c w h t ap =
     \<lparr> cls = c, height = h, width = w, torus = t,
       cells = replicate (nat w) (replicate (nat h) []),
       empties_set = set (List.product [0..w - 1] [0..h - 1]),
       all_cells_set = set (List.product [0..w - 1] [0..h - 1]),
       neighborhood_cache = Map.empty,
       agent_pos = ap \<rparr>"

section \<open>Indexing\<close>

text \<open>
  Python list indexing: an index \<open>i\<close> with \<open>- len \<le> i < 0\<close> counts from the end, any
  index outside \<open>[- len, len)\<close> raises \<^verbatim>\<open>IndexError\<close> (here \<open>None\<close>).
\<close>

definition py_index :: "'a list \<Rightarrow> int \<Rightarrow> nat option" where
  "py_index xs i =
     (if 0 \<le> i \<and> i < int (length xs) then Some (nat i)
      else if i < 0 \<and> - int (length xs) \<le> i then Some (nat (int (length xs) + i))
      else None)"

text \<open>\<^verbatim>\<open>self._grid[x][y]\<close>: the column and row the two indexings reach.\<close>

definition locate :: "GridContent list list \<Rightarrow> Coordinate \<Rightarrow> (nat \<times> nat) option" where
  "locate g pos =
     (case py_index g (fst pos) of
        None \<Rightarrow> None
      | Some i \<Rightarrow>
          (case py_index (g ! i) (snd pos) of
             None \<Rightarrow> None
           | Some j \<Rightarrow> Some (i, j)))"

definition cell_at :: "GridContent list list \<Rightarrow> nat \<times> nat \<Rightarrow> GridContent" where
  "cell_at g ij = g ! fst ij ! snd ij"

text \<open>In-place mutation of the one cell object at column \<open>i\<close>, row \<open>j\<close>.\<close>

definition cell_update ::
  "GridContent list list \<Rightarrow> nat \<times> nat \<Rightarrow> GridContent \<Rightarrow> GridContent list list" where
  "cell_update g ij c = g[fst ij := (g ! fst ij)[snd ij := c]]"

text \<open>
  \<^verbatim>\<open>MultiGrid.__getitem__\<close> with a tuple: the list of agents \<^verbatim>\<open>self._grid[x][y]\<close>.
  (\<^verbatim>\<open>SingleGrid.__getitem__\<close> reads the same list and returns its first element, or
  \<^verbatim>\<open>None\<close> when it is empty; the theorems below speak of the list itself.)
\<close>

definition getitem :: "world \<Rightarrow> Coordinate \<Rightarrow> error + GridContent" where
  "getitem s pos =
     (case locate (cells s) pos of
        None \<Rightarrow> Inl IndexError
      | Some ij \<Rightarrow> Inr (cell_at (cells s) ij))"

text \<open>\<^verbatim>\<open>MultiGrid.__setitem__\<close>: \<^verbatim>\<open>self._grid[x][y].append(agent)\<close> and nothing else.\<close>

definition setitem :: "Coordinate \<Rightarrow> agent \<Rightarrow> world \<Rightarrow> world result" where
  "setitem pos a s =
     (case locate (cells s) pos of
        None \<Rightarrow> Inl (IndexError, s)
      | Some ij \<Rightarrow>
          Inr (s\<lparr>cells := cell_update (cells s) ij (cell_at (cells s) ij @ [a])\<rparr>))"

section \<open>Bounds\<close>

definition out_of_bounds :: "world \<Rightarrow> Coordinate \<Rightarrow> bool" where
  "out_of_bounds s pos = (pos \<notin> all_cells_set s)"

text \<open>
  \<^verbatim>\<open>torus_adj\<close>. Python's \<^verbatim>\<open>%\<close> on integers is floor modulo, as \<open>mod\<close> on \<open>int\<close> is,
  except that a zero divisor raises.
\<close>

definition torus_adj :: "world \<Rightarrow> Coordinate \<Rightarrow> error + Coordinate" where
  "torus_adj s pos =
     (if \<not> out_of_bounds s pos then Inr pos
      else if \<not> torus s then Inl OutOfBounds
      else if width s = 0 \<or> height s = 0 then Inl ZeroDivisionError
      else Inr (fst pos mod width s, snd pos mod height s))"

definition is_cell_empty :: "world \<Rightarrow> Coordinate \<Rightarrow> bool" where
  "is_cell_empty s pos = (pos \<in> empties_set s)"

text \<open>The property \<^verbatim>\<open>empties\<close>: \<^verbatim>\<open>sorted(self._empties)\<close>.\<close>

definition empties :: "world \<Rightarrow> Coordinate list" where
  "empties s = sorted_list_of_set (empties_set s)"

section \<open>Placement\<close>

text \<open>\<^verbatim>\<open>MultiGrid.place_agent\<close>.\<close>

definition MultiGrid_place_agent :: "agent \<Rightarrow> Coordinate \<Rightarrow> world \<Rightarrow> world result" where
  "MultiGrid_place_agent a pos s =
     (case locate (cells s) pos of
        None \<Rightarrow> Inl (IndexError, s)
      | Some ij \<Rightarrow>
          Inr (s\<lparr>cells := cell_update (cells s) ij (cell_at (cells s) ij @ [a]),
                 empties_set := empties_set s - {pos},
                 agent_pos := (agent_pos s)(a := Some pos)\<rparr>))"

text \<open>\<^verbatim>\<open>SingleGrid.place_agent\<close>.\<close>

definition SingleGrid_place_agent :: "agent \<Rightarrow> Coordinate \<Rightarrow> world \<Rightarrow> world result" where
  "SingleGrid_place_agent a pos s =
     (if \<not> is_cell_empty s pos then Inl (CellOccupied, s)
      else MultiGrid_place_agent a pos s)"

text \<open>
  \<^verbatim>\<open>Grid.place_agent\<close>: a cell that is not in \<^verbatim>\<open>_empties\<close> is cleared and its
  coordinate added to \<^verbatim>\<open>_empties\<close>; the \<^verbatim>\<open>pos\<close> attribute of the agents thrown out
  is not written.
\<close>

definition Grid_place_agent :: "agent \<Rightarrow> Coordinate \<Rightarrow> world \<Rightarrow> world result" where
  "Grid_place_agent a pos s =
     (if \<not> is_cell_empty s pos then
        (case locate (cells s) pos of
           None \<Rightarrow> Inl (IndexError, s)
         | Some ij \<Rightarrow>
             SingleGrid_place_agent a pos
               (s\<lparr>cells := cell_update (cells s) ij [],
                  empties_set := insert pos (empties_set s)\<rparr>))
      else SingleGrid_place_agent a pos s)"

text \<open>\<^verbatim>\<open>self.place_agent\<close>, resolved by the class of the object.\<close>

definition place_agent :: "agent \<Rightarrow> Coordinate \<Rightarrow> world \<Rightarrow> world result" where
  "place_agent a pos s =
     (case cls s of
        MultiGrid \<Rightarrow> MultiGrid_place_agent a pos s
      | SingleGrid \<Rightarrow> SingleGrid_place_agent a pos s
      | Grid \<Rightarrow> Grid_place_agent a pos s)"

text \<open>
  \<^verbatim>\<open>remove_agent\<close> (one definition for the three classes). Unpacking a \<^verbatim>\<open>pos\<close> that
  is \<^verbatim>\<open>None\<close> raises \<^verbatim>\<open>TypeError\<close>; \<^verbatim>\<open>content.remove(agent)\<close> deletes the first
  occurrence and raises \<^verbatim>\<open>ValueError\<close> when there is none.
\<close>

definition remove_agent :: "agent \<Rightarrow> world \<Rightarrow> world result" where
  "remove_agent a s =
     (case agent_pos s a of
        None \<Rightarrow> Inl (TypeError, s)
      | Some pos \<Rightarrow>
          (case locate (cells s) pos of
             None \<Rightarrow> Inl (IndexError, s)
           | Some ij \<Rightarrow>
               (let content = cell_at (cells s) ij in
                if a \<notin> set content then Inl (ValueError, s)
                else
                  (let content' = remove1 a content;
                       s1 = s\<lparr>cells := cell_update (cells s) ij content'\<rparr>;
                       s2 = (if content' = []
                             then s1\<lparr>empties_set := insert pos (empties_set s1)\<rparr>
                             else s1)
                   in Inr (s2\<lparr>agent_pos := (agent_pos s2)(a := None)\<rparr>)))))"

text \<open>\<^verbatim>\<open>move_agent\<close>: \<^verbatim>\<open>torus_adj\<close>, then \<^verbatim>\<open>remove_agent\<close>, then \<^verbatim>\<open>self.place_agent\<close>.\<close>

definition move_agent :: "agent \<Rightarrow> Coordinate \<Rightarrow> world \<Rightarrow> world result" where
  "move_agent a pos s =
     (case torus_adj s pos of
        Inl e \<Rightarrow> Inl (e, s)
      | Inr pos' \<Rightarrow>
          (case remove_agent a s of
             Inl err \<Rightarrow> Inl err
           | Inr s1 \<Rightarrow> place_agent a pos' s1))"

text \<open>
  \<^verbatim>\<open>agent.random.choice(seq)\<close> returns \<^verbatim>\<open>seq[k]\<close> for a \<open>k\<close> below \<^verbatim>\<open>len(seq)\<close> that the
  random source decides; the parameter \<open>r\<close> stands for the state of that source and
  \<open>r mod length seq\<close> for its draw, so that every element can be drawn and nothing else.
\<close>

definition choice :: "nat \<Rightarrow> 'a list \<Rightarrow> error + 'a" where
  "choice r xs = (if xs = [] then Inl IndexError else Inr (xs ! (r mod length xs)))"

text \<open>\<^verbatim>\<open>move_to_empty\<close>: the test and the draw both come before \<^verbatim>\<open>move_agent\<close>.\<close>

definition move_to_empty :: "agent \<Rightarrow> nat \<Rightarrow> world \<Rightarrow> world result" where
  "move_to_empty a r s =
     (if empties_set s = {} then Inl (GridFull, s)
      else
        (case choice r (empties s) of
           Inl e \<Rightarrow> Inl (e, s)
         | Inr new_pos \<Rightarrow> move_agent a new_pos s))"

text \<open>
  \<^verbatim>\<open>SingleGrid.position_agent\<close>, inherited by \<^verbatim>\<open>Grid\<close>; \<^verbatim>\<open>MultiGrid\<close> has no such
  method. An argument is \<open>None\<close> for the string \<^verbatim>\<open>"random"\<close> and \<open>Some n\<close> for a number.
\<close>

definition position_agent ::
  "agent \<Rightarrow> int option \<Rightarrow> int option \<Rightarrow> nat \<Rightarrow> world \<Rightarrow> world result" where
  "position_agent a x y r s =
     (if cls s = MultiGrid then Inl (AttributeError, s)
      else
        (case (if x = None \<or> y = None
               then (if empties_set s = {} then Inl (GridFull, s)
                     else (case choice r (empties s) of
                             Inl e \<Rightarrow> Inl (e, s)
                           | Inr c \<Rightarrow> Inr c))
               else Inr (the x, the y)) of
           Inl err \<Rightarrow> Inl err
         | Inr coords \<Rightarrow> place_agent a coords (s\<lparr>agent_pos := (agent_pos s)(a := Some coords)\<rparr>)))"

section \<open>Neighbourhoods\<close>

text \<open>A \<^verbatim>\<open>for\<close> loop whose body may raise: the first exception ends the loop.\<close>

primrec fold_err :: "('a \<Rightarrow> 'b \<Rightarrow> error + 'b) \<Rightarrow> 'a list \<Rightarrow> 'b \<Rightarrow> error + 'b" where
  "fold_err f [] acc = Inr acc"
| "fold_err f (x # xs) acc =
     (case f x acc of Inl e \<Rightarrow> Inl e | Inr acc' \<Rightarrow> fold_err f xs acc')"

text \<open>
  The body of the inner loop of \<^verbatim>\<open>get_neighborhood\<close> for one \<open>dy\<close> and one \<open>dx\<close>, on the
  set \<^verbatim>\<open>coordinates\<close>.
\<close>

definition neighborhood_step ::
  "world \<Rightarrow> Coordinate \<Rightarrow> bool \<Rightarrow> bool \<Rightarrow> int \<Rightarrow> int \<Rightarrow> int \<Rightarrow> Coordinate set
     \<Rightarrow> error + Coordinate set" where
  "neighborhood_step s pos moore include_center radius dy dx coordinates =
     (if dx = 0 \<and> dy = 0 \<and> \<not> include_center then Inr coordinates
      else if \<not> moore \<and> \<bar>dx\<bar> + \<bar>dy\<bar> > radius then Inr coordinates
      else
        (let coord = (fst pos + dx, snd pos + dy) in
         if out_of_bounds s coord then
           (if \<not> torus s then Inr coordinates
            else (case torus_adj s coord of
                    Inl e \<Rightarrow> Inl e
                  | Inr coord' \<Rightarrow> Inr (insert coord' coordinates)))
         else Inr (insert coord coordinates)))"

text \<open>
  The two nested loops over \<^verbatim>\<open>range(-radius, radius + 1)\<close>, from the empty set, and
  \<^verbatim>\<open>sorted(coordinates)\<close>.
\<close>

definition compute_neighborhood :: "world \<Rightarrow> cache_key \<Rightarrow> error + Coordinate list" where
  "compute_neighborhood s key =
     (case key of (pos, moore, include_center, radius) \<Rightarrow>
        (case fold_err
                (\<lambda>dy. fold_err (neighborhood_step s pos moore include_center radius dy)
                        [- radius..radius])
                [- radius..radius] {} of
           Inl e \<Rightarrow> Inl e
         | Inr coordinates \<Rightarrow> Inr (sorted_list_of_set coordinates)))"

text \<open>
  \<^verbatim>\<open>get_neighborhood\<close>: the cache is read first; on a miss the list is computed and
  stored under the key; an exception in the loops leaves the cache as it was.
\<close>

definition get_neighborhood ::
  "Coordinate \<Rightarrow> bool \<Rightarrow> bool \<Rightarrow> int \<Rightarrow> world \<Rightarrow> (Coordinate list \<times> world) result" where
  "get_neighborhood pos moore include_center radius s =
     (let cache_key = (pos, moore, include_center, radius) in
      case neighborhood_cache s cache_key of
        Some neighborhood \<Rightarrow> Inr (neighborhood, s)
      | None \<Rightarrow>
          (case compute_neighborhood s cache_key of
             Inl e \<Rightarrow> Inl (e, s)
           | Inr neighborhood \<Rightarrow>
               Inr (neighborhood,
                    s\<lparr>neighborhood_cache := (neighborhood_cache s)(cache_key \<mapsto> neighborhood)\<rparr>)))"

section \<open>Calls\<close>

text \<open>
  One public call on the grid. \<open>run\<close> performs it and drops the value a query returns;
  \<open>state_after\<close> is the state the caller is left with, whether the call returned or
  raised; \<open>run_calls\<close> is any sequence of calls on the same grid.
\<close>

datatype call =
  Place_agent agent Coordinate
  | Position_agent agent "int option" "int option" nat
  | Move_agent agent Coordinate
  | Remove_agent agent
  | Move_to_empty agent nat
  | Get_neighborhood Coordinate bool bool int
  | Setitem Coordinate agent

fun run :: "call \<Rightarrow> world \<Rightarrow> world result" where
  "run (Place_agent a pos) s = place_agent a pos s"
| "run (Position_agent a x y r) s = position_agent a x y r s"
| "run (Move_agent a pos) s = move_agent a pos s"
| "run (Remove_agent a) s = remove_agent a s"
| "run (Move_to_empty a r) s = move_to_empty a r s"
| "run (Get_neighborhood pos moore include_center radius) s =
     (case get_neighborhood pos moore include_center radius s of
        Inl err \<Rightarrow> Inl err
      | Inr (neighborhood, s') \<Rightarrow> Inr s')"
| "run (Setitem pos a) s = setitem pos a s"

definition state_after :: "call \<Rightarrow> world \<Rightarrow> world" where
  "state_after c s = (case run c s of Inl (e, s') \<Rightarrow> s' | Inr s' \<Rightarrow> s')"

definition run_calls :: "call list \<Rightarrow> world \<Rightarrow> world" where
  "run_calls cs s = fold state_after cs s"

section \<open>Well-formed states\<close>

text \<open>
  Canonical coordinates, \<open>0 \<le> x < width\<close> and \<open>0 \<le> y < height\<close>, and the cell at a
  canonical coordinate.
\<close>

definition in_bounds :: "world \<Rightarrow> Coordinate \<Rightarrow> bool" where
  "in_bounds s pos = (0 \<le> fst pos \<and> fst pos < width s \<and> 0 \<le> snd pos \<and> snd pos < height s)"

definition content :: "world \<Rightarrow> Coordinate \<Rightarrow> GridContent" where
  "content s pos = cell_at (cells s) (nat (fst pos), nat (snd pos))"

text \<open>
  What the constructor establishes and the code relies on: \<^verbatim>\<open>_all_cells\<close> is the
  rectangle and \<^verbatim>\<open>_grid\<close> has \<open>width\<close> columns of \<open>height\<close> cells (\<open>shape_inv\<close>);
  \<^verbatim>\<open>_empties\<close> holds the canonical coordinates of the cells without agents
  (\<open>empties_inv\<close>); a \<^verbatim>\<open>pos\<close> attribute that is set is canonical (\<open>pos_inv\<close>); a
  cache entry is the list the loops compute for its key (\<open>cache_inv\<close>).
\<close>

definition shape_inv :: "world \<Rightarrow> bool" where
  "shape_inv s =
     (all_cells_set s = {pos. in_bounds s pos} \<and>
      length (cells s) = nat (width s) \<and>
      (\<forall>col \<in> set (cells s). length col = nat (height s)))"

definition empties_inv :: "world \<Rightarrow> bool" where
  "empties_inv s = (\<forall>pos. pos \<in> empties_set s \<longleftrightarrow> in_bounds s pos \<and> content s pos = [])"

definition pos_inv :: "world \<Rightarrow> bool" where
  "pos_inv s = (\<forall>a pos. agent_pos s a = Some pos \<longrightarrow> in_bounds s pos)"

definition cache_inv :: "world \<Rightarrow> bool" where
  "cache_inv s =
     (\<forall>key v. neighborhood_cache s key = Some v \<longrightarrow> compute_neighborhood s key = Inr v)"

definition grid_inv :: "world \<Rightarrow> bool" where
  "grid_inv s = (shape_inv s \<and> empties_inv s \<and> pos_inv s \<and> cache_inv s)"

text \<open>
  The calls of the Placement Protocol whose coordinate argument, when they take one that
  is not wrapped by \<^verbatim>\<open>torus_adj\<close>, is canonical.
\<close>

fun placement_call :: "world \<Rightarrow> call \<Rightarrow> bool" where
  "placement_call s (Place_agent a pos) = in_bounds s pos"
| "placement_call s (Position_agent a (Some x) (Some y) r) = in_bounds s (x, y)"
| "placement_call s (Position_agent a x y r) = True"
| "placement_call s (Move_agent a pos) = True"
| "placement_call s (Remove_agent a) = True"
| "placement_call s (Move_to_empty a r) = True"
| "placement_call s (Get_neighborhood pos moore include_center radius) = False"
| "placement_call s (Setitem pos a) = False"

text \<open>Writing one cell of a well-shaped grid.\<close>

definition set_content :: "world \<Rightarrow> Coordinate \<Rightarrow> GridContent \<Rightarrow> world" where
  "set_content s pos c = s\<lparr>cells := cell_update (cells s) (nat (fst pos), nat (snd pos)) c\<rparr>"


text \<open>
  What no call writes: the class, the dimensions, the torus flag and \<^verbatim>\<open>_all_cells\<close>
  (\<open>topology\<close>). \<open>frame s s'\<close>: the state \<open>s'\<close> has the topology and the cache of \<open>s\<close>.
  \<open>result_state\<close>: the state a call leaves, whether it returned or raised.
\<close>

definition topology :: "world \<Rightarrow> grid_class \<times> int \<times> int \<times> bool \<times> Coordinate set" where
  "topology s = (cls s, width s, height s, torus s, all_cells_set s)"

definition frame :: "world \<Rightarrow> world \<Rightarrow> bool" where
  "frame s s' = (topology s' = topology s \<and> neighborhood_cache s' = neighborhood_cache s)"

definition result_state :: "world result \<Rightarrow> world" where
  "result_state r = (case r of Inl (e, s') \<Rightarrow> s' | Inr s' \<Rightarrow> s')"

text \<open>An agent is on the grid when some cell of \<^verbatim>\<open>_grid\<close> holds it.\<close>

definition on_grid :: "world \<Rightarrow> agent \<Rightarrow> bool" where
  "on_grid s a = (\<exists>col \<in> set (cells s). \<exists>c \<in> set col. a \<in> set c)"









section \<open>Helper lemmas: indexing and the invariants\<close>


lemma py_index_canonical: "0 \<le> i \<Longrightarrow> i < int (length xs) \<Longrightarrow> py_index xs i = Some (nat i)"
  by (simp add: py_index_def)

lemma in_bounds_nat:
  "in_bounds s pos \<Longrightarrow> nat (fst pos) < nat (width s) \<and> nat (snd pos) < nat (height s)"
  by (auto simp: in_bounds_def)

lemma locate_in_bounds:
  assumes "shape_inv s" "in_bounds s pos"
  shows "locate (cells s) pos = Some (nat (fst pos), nat (snd pos))"
proof -
  from assms have i: "0 \<le> fst pos" "fst pos < int (length (cells s))"
    by (auto simp: shape_inv_def in_bounds_def)
  then have "nat (fst pos) < length (cells s)" by simp
  then have "cells s ! nat (fst pos) \<in> set (cells s)" by simp
  with assms have "length (cells s ! nat (fst pos)) = nat (height s)"
    by (simp add: shape_inv_def)
  with assms have j: "0 \<le> snd pos" "snd pos < int (length (cells s ! nat (fst pos)))"
    by (auto simp: in_bounds_def)
  show ?thesis
    by (simp add: locate_def py_index_canonical[OF i] py_index_canonical[OF j])
qed

lemma getitem_in_bounds:
  "shape_inv s \<Longrightarrow> in_bounds s pos \<Longrightarrow> getitem s pos = Inr (content s pos)"
  by (simp add: getitem_def locate_in_bounds content_def)

lemma set_content_fields [simp]:
  "cls (set_content s pos c) = cls s"
  "height (set_content s pos c) = height s"
  "width (set_content s pos c) = width s"
  "torus (set_content s pos c) = torus s"
  "empties_set (set_content s pos c) = empties_set s"
  "all_cells_set (set_content s pos c) = all_cells_set s"
  "neighborhood_cache (set_content s pos c) = neighborhood_cache s"
  "agent_pos (set_content s pos c) = agent_pos s"
  by (simp_all add: set_content_def)

lemma in_bounds_cong:
  "width s' = width s \<Longrightarrow> height s' = height s \<Longrightarrow> in_bounds s' = in_bounds s"
  by (auto simp: in_bounds_def fun_eq_iff)

lemma in_bounds_set_content [simp]: "in_bounds (set_content s pos c) = in_bounds s"
  by (rule in_bounds_cong) simp_all

lemma cell_update_length [simp]: "length (cell_update g ij c) = length g"
  by (simp add: cell_update_def)

lemma cell_update_cols:
  assumes "\<forall>col \<in> set g. length col = n"
  shows "\<forall>col \<in> set (cell_update g ij c). length col = n"
proof
  fix col assume "col \<in> set (cell_update g ij c)"
  then have "col \<in> insert ((g ! fst ij)[snd ij := c]) (set g)"
    unfolding cell_update_def using set_update_subset_insert by fastforce
  moreover have "fst ij < length g \<Longrightarrow> length ((g ! fst ij)[snd ij := c]) = n"
    using assms by simp
  moreover have "\<not> fst ij < length g \<Longrightarrow> cell_update g ij c = g"
    by (simp add: cell_update_def list_update_beyond)
  ultimately show "length col = n"
    using assms \<open>col \<in> set (cell_update g ij c)\<close> by (cases "fst ij < length g") auto
qed

lemma shape_inv_set_content: "shape_inv s \<Longrightarrow> shape_inv (set_content s pos c)"
  using cell_update_cols[of "cells s" "nat (height s)" "(nat (fst pos), nat (snd pos))" c]
  unfolding shape_inv_def in_bounds_set_content
  by (simp add: set_content_def)

lemma content_set_content:
  assumes "shape_inv s" "in_bounds s pos" "in_bounds s pos'"
  shows "content (set_content s pos c) pos' = (if pos' = pos then c else content s pos')"
proof -
  let ?i = "nat (fst pos)" and ?j = "nat (snd pos)"
  let ?i' = "nat (fst pos')" and ?j' = "nat (snd pos')"
  from assms have i: "?i < length (cells s)" "?i' < length (cells s)"
    by (auto simp: shape_inv_def in_bounds_def)
  then have "cells s ! ?i \<in> set (cells s)" "cells s ! ?i' \<in> set (cells s)" by simp_all
  with assms have j: "?j < length (cells s ! ?i)" "?j' < length (cells s ! ?i')"
    by (auto simp: shape_inv_def in_bounds_def)
  have eq: "pos' = pos \<longleftrightarrow> ?i' = ?i \<and> ?j' = ?j"
    using assms(2,3) by (auto simp: in_bounds_def prod_eq_iff)
  show ?thesis
    using i j by (auto simp: eq content_def set_content_def cell_at_def cell_update_def nth_list_update)
qed

lemma set_content_same:
  "set_content s pos (content s pos) = s"
  by (simp add: set_content_def content_def cell_update_def cell_at_def)

lemma set_content_twice:
  "set_content (set_content s pos c) pos c' = set_content s pos c'"
  by (cases "nat (fst pos) < length (cells s)")
    (simp_all add: set_content_def cell_update_def list_update_beyond)

lemma in_bounds_upd [simp]:
  "in_bounds (s\<lparr>empties_set := E\<rparr>) = in_bounds s"
  "in_bounds (s\<lparr>agent_pos := P\<rparr>) = in_bounds s"
  "in_bounds (s\<lparr>neighborhood_cache := C\<rparr>) = in_bounds s"
  by (rule in_bounds_cong; simp)+

lemma content_upd [simp]:
  "content (s\<lparr>empties_set := E\<rparr>) = content s"
  "content (s\<lparr>agent_pos := P\<rparr>) = content s"
  "content (s\<lparr>neighborhood_cache := C\<rparr>) = content s"
  by (simp_all add: content_def fun_eq_iff)

lemma shape_inv_upd [simp]:
  "shape_inv (s\<lparr>empties_set := E\<rparr>) = shape_inv s"
  "shape_inv (s\<lparr>agent_pos := P\<rparr>) = shape_inv s"
  "shape_inv (s\<lparr>neighborhood_cache := C\<rparr>) = shape_inv s"
  by (simp_all add: shape_inv_def)

lemma empties_inv_upd [simp]:
  "empties_inv (s\<lparr>agent_pos := P\<rparr>) = empties_inv s"
  "empties_inv (s\<lparr>neighborhood_cache := C\<rparr>) = empties_inv s"
  by (simp_all add: empties_inv_def)

lemma pos_inv_upd [simp]:
  "pos_inv (s\<lparr>empties_set := E\<rparr>) = pos_inv s"
  "pos_inv (s\<lparr>neighborhood_cache := C\<rparr>) = pos_inv s"
  "pos_inv (set_content s pos c) = pos_inv s"
  by (simp_all add: pos_inv_def)

lemma compute_neighborhood_cong:
  assumes "all_cells_set s' = all_cells_set s" "torus s' = torus s"
    "width s' = width s" "height s' = height s"
  shows "compute_neighborhood s' = compute_neighborhood s"
proof -
  have o: "out_of_bounds s' = out_of_bounds s"
    using assms by (simp add: out_of_bounds_def fun_eq_iff)
  have t: "torus_adj s' = torus_adj s"
    using assms by (simp add: torus_adj_def o fun_eq_iff)
  have "neighborhood_step s' pos moore include_center radius dy dx coordinates =
        neighborhood_step s pos moore include_center radius dy dx coordinates"
    for pos moore include_center radius dy dx coordinates
    unfolding neighborhood_step_def o t assms(2) ..
  then have "neighborhood_step s' = neighborhood_step s"
    by (intro ext)
  then show ?thesis
    by (intro ext) (simp only: compute_neighborhood_def)
qed

lemma cache_inv_cong:
  assumes "all_cells_set s' = all_cells_set s" "torus s' = torus s"
    "width s' = width s" "height s' = height s"
    "neighborhood_cache s' = neighborhood_cache s"
  shows "cache_inv s' = cache_inv s"
  using compute_neighborhood_cong[OF assms(1-4)] assms(5) by (simp add: cache_inv_def)

lemma cache_inv_upd [simp]:
  "cache_inv (s\<lparr>empties_set := E\<rparr>) = cache_inv s"
  "cache_inv (s\<lparr>agent_pos := P\<rparr>) = cache_inv s"
  "cache_inv (set_content s pos c) = cache_inv s"
  by (rule cache_inv_cong; simp)+

lemma empties_invD:
  "empties_inv s \<Longrightarrow> (pos \<in> empties_set s) = (in_bounds s pos \<and> content s pos = [])"
  unfolding empties_inv_def by blast

lemma empties_inv_set_content:
  assumes "shape_inv s" "empties_inv s" "in_bounds s pos"
    and E: "E = (if c = [] then insert pos (empties_set s) else empties_set s - {pos})"
  shows "empties_inv ((set_content s pos c)\<lparr>empties_set := E\<rparr>)"
  unfolding empties_inv_def
proof
  fix p
  let ?t = "(set_content s pos c)\<lparr>empties_set := E\<rparr>"
  have e: "empties_set ?t = E" and i: "in_bounds ?t p = in_bounds s p"
    and c: "content ?t p = content (set_content s pos c) p" by simp_all
  show "p \<in> empties_set ?t \<longleftrightarrow> in_bounds ?t p \<and> content ?t p = []"
  proof (cases "in_bounds s p")
    case True
    have "content (set_content s pos c) p = (if p = pos then c else content s p)"
      by (rule content_set_content[OF assms(1,3) True])
    then show ?thesis
      unfolding e i c using True empties_invD[OF assms(2), of p] by (auto simp: E)
  next
    case False
    then have "p \<noteq> pos" "p \<notin> empties_set s"
      using assms(3) empties_invD[OF assms(2), of p] by auto
    with False show ?thesis unfolding e i by (simp add: E)
  qed
qed

lemma pos_inv_place:
  "pos_inv s \<Longrightarrow> in_bounds s pos \<Longrightarrow> pos_inv (s\<lparr>agent_pos := (agent_pos s)(a := Some pos)\<rparr>)"
  by (auto simp: pos_inv_def)

lemma pos_inv_clear:
  "pos_inv s \<Longrightarrow> pos_inv (s\<lparr>agent_pos := (agent_pos s)(a := None)\<rparr>)"
  by (auto simp: pos_inv_def)


lemma pos_invD: "pos_inv s \<Longrightarrow> agent_pos s a = Some pos \<Longrightarrow> in_bounds s pos"
  unfolding pos_inv_def by blast

lemma grid_inv_set_content:
  assumes "grid_inv s" "in_bounds s pos"
    and "E = (if c = [] then insert pos (empties_set s) else empties_set s - {pos})"
  shows "grid_inv ((set_content s pos c)\<lparr>empties_set := E\<rparr>)"
proof -
  from assms(1) have sh: "shape_inv s" and em: "empties_inv s" and po: "pos_inv s"
    and ca: "cache_inv s" by (simp_all add: grid_inv_def)
  have "shape_inv (set_content s pos c)" by (rule shape_inv_set_content[OF sh])
  moreover have "empties_inv ((set_content s pos c)\<lparr>empties_set := E\<rparr>)"
    by (rule empties_inv_set_content[OF sh em assms(2,3)])
  ultimately show ?thesis using po ca by (simp add: grid_inv_def)
qed

lemma grid_inv_place:
  assumes "grid_inv t" "in_bounds t pos"
  shows "grid_inv (t\<lparr>agent_pos := (agent_pos t)(a := Some pos)\<rparr>)"
  using assms pos_inv_place[of t pos a] by (simp add: grid_inv_def)

lemma grid_inv_clear:
  assumes "grid_inv t"
  shows "grid_inv (t\<lparr>agent_pos := (agent_pos t)(a := None)\<rparr>)"
  using assms pos_inv_clear[of t a] by (simp add: grid_inv_def)

text \<open>The placement operations on a canonical coordinate of a well-shaped grid.\<close>

lemma MultiGrid_place_agent_in_bounds:
  assumes "shape_inv s" "in_bounds s pos"
  shows "MultiGrid_place_agent a pos s =
         Inr ((set_content s pos (content s pos @ [a]))
                \<lparr>empties_set := empties_set s - {pos},
                 agent_pos := (agent_pos s)(a := Some pos)\<rparr>)"
  using assms
  by (simp add: MultiGrid_place_agent_def locate_in_bounds set_content_def content_def)

lemma MultiGrid_place_agent_inv:
  assumes "grid_inv s" "in_bounds s pos" "MultiGrid_place_agent a pos s = Inr s'"
  shows "grid_inv s'"
proof -
  from assms(1) have sh: "shape_inv s" by (simp add: grid_inv_def)
  let ?t = "(set_content s pos (content s pos @ [a]))\<lparr>empties_set := empties_set s - {pos}\<rparr>"
  have s': "s' = ?t\<lparr>agent_pos := (agent_pos ?t)(a := Some pos)\<rparr>"
    using assms(3) MultiGrid_place_agent_in_bounds[OF sh assms(2)] by simp
  have "grid_inv ?t"
    by (rule grid_inv_set_content[OF assms(1,2)]) simp
  moreover have "in_bounds ?t pos" using assms(2) by simp
  ultimately show ?thesis unfolding s' by (rule grid_inv_place)
qed

lemma SingleGrid_place_agent_inv:
  assumes "grid_inv s" "in_bounds s pos" "SingleGrid_place_agent a pos s = Inr s'"
  shows "grid_inv s'"
proof (cases "is_cell_empty s pos")
  case True
  with assms(3) have "MultiGrid_place_agent a pos s = Inr s'"
    by (simp add: SingleGrid_place_agent_def)
  with assms(1,2) show ?thesis by (rule MultiGrid_place_agent_inv)
next
  case False
  with assms(3) show ?thesis by (simp add: SingleGrid_place_agent_def)
qed

lemma Grid_place_agent_inv:
  assumes "grid_inv s" "in_bounds s pos" "Grid_place_agent a pos s = Inr s'"
  shows "grid_inv s'"
proof (cases "is_cell_empty s pos")
  case True
  with assms(3) have "SingleGrid_place_agent a pos s = Inr s'"
    by (simp add: Grid_place_agent_def)
  with assms(1,2) show ?thesis by (rule SingleGrid_place_agent_inv)
next
  case False
  from assms(1) have sh: "shape_inv s" by (simp add: grid_inv_def)
  let ?t = "(set_content s pos [])\<lparr>empties_set := insert pos (empties_set s)\<rparr>"
  have "grid_inv ?t"
    by (rule grid_inv_set_content[OF assms(1,2)]) simp
  moreover have "in_bounds ?t pos" using assms(2) by simp
  moreover have "SingleGrid_place_agent a pos ?t = Inr s'"
    using assms(3) False locate_in_bounds[OF sh assms(2)]
    by (simp add: Grid_place_agent_def set_content_def)
  ultimately show ?thesis by (rule SingleGrid_place_agent_inv)
qed

lemma place_agent_inv:
  assumes "grid_inv s" "in_bounds s pos" "place_agent a pos s = Inr s'"
  shows "grid_inv s'"
proof (cases "cls s")
  case MultiGrid
  with assms(3) have "MultiGrid_place_agent a pos s = Inr s'" by (simp add: place_agent_def)
  with assms(1,2) show ?thesis by (rule MultiGrid_place_agent_inv)
next
  case SingleGrid
  with assms(3) have "SingleGrid_place_agent a pos s = Inr s'" by (simp add: place_agent_def)
  with assms(1,2) show ?thesis by (rule SingleGrid_place_agent_inv)
next
  case Grid
  with assms(3) have "Grid_place_agent a pos s = Inr s'" by (simp add: place_agent_def)
  with assms(1,2) show ?thesis by (rule Grid_place_agent_inv)
qed

lemma remove_agent_in_bounds:
  assumes "shape_inv s" "agent_pos s a = Some pos" "in_bounds s pos"
  shows "remove_agent a s =
         (if a \<notin> set (content s pos) then Inl (ValueError, s)
          else Inr ((set_content s pos (remove1 a (content s pos)))
                      \<lparr>empties_set := (if remove1 a (content s pos) = []
                                        then insert pos (empties_set s) else empties_set s),
                       agent_pos := (agent_pos s)(a := None)\<rparr>))"
  using assms
  by (simp add: remove_agent_def locate_in_bounds set_content_def content_def Let_def)

lemma remove_agent_SomeD:
  assumes "remove_agent a s = Inr s'"
  obtains pos where "agent_pos s a = Some pos"
  using assms by (cases "agent_pos s a") (simp_all add: remove_agent_def)

lemma remove_agent_inv:
  assumes "grid_inv s" "remove_agent a s = Inr s'"
  shows "grid_inv s'"
proof -
  from assms(1) have sh: "shape_inv s" and em: "empties_inv s" and po: "pos_inv s"
    by (simp_all add: grid_inv_def)
  from assms(2) obtain pos where ap: "agent_pos s a = Some pos" by (rule remove_agent_SomeD)
  with po have ib: "in_bounds s pos" by (rule pos_invD)
  let ?c = "remove1 a (content s pos)"
  let ?E = "if ?c = [] then insert pos (empties_set s) else empties_set s"
  let ?t = "(set_content s pos ?c)\<lparr>empties_set := ?E\<rparr>"
  have r: "remove_agent a s =
         (if a \<notin> set (content s pos) then Inl (ValueError, s)
          else Inr (?t\<lparr>agent_pos := (agent_pos ?t)(a := None)\<rparr>))"
    using remove_agent_in_bounds[OF sh ap ib] by simp
  from assms(2) have mem: "a \<in> set (content s pos)"
    unfolding r by (simp split: if_splits)
  with assms(2) have s': "s' = ?t\<lparr>agent_pos := (agent_pos ?t)(a := None)\<rparr>"
    unfolding r by simp
  from mem have "content s pos \<noteq> []" by auto
  then have "pos \<notin> empties_set s" using empties_invD[OF em, of pos] by simp
  then have "?E = (if ?c = [] then insert pos (empties_set s) else empties_set s - {pos})"
    by simp
  then have "grid_inv ?t" by (rule grid_inv_set_content[OF assms(1) ib])
  then show ?thesis unfolding s' by (rule grid_inv_clear)
qed


lemma torus_adj_in_bounds:
  assumes "shape_inv s" "0 < width s" "0 < height s" "torus_adj s pos = Inr pos'"
  shows "in_bounds s pos'"
proof (cases "out_of_bounds s pos")
  case False
  with assms(4) have "pos' = pos" by (simp add: torus_adj_def)
  with False assms(1) show ?thesis by (simp add: out_of_bounds_def shape_inv_def)
next
  case True
  with assms(4) have "pos' = (fst pos mod width s, snd pos mod height s)"
    by (simp add: torus_adj_def split: if_splits)
  with assms(2,3) show ?thesis by (simp add: in_bounds_def)
qed

lemma remove_agent_placed:
  assumes "pos_inv s" "remove_agent a s = Inr s'"
  shows "0 < width s \<and> 0 < height s"
proof -
  from assms(2) obtain pos where "agent_pos s a = Some pos" by (rule remove_agent_SomeD)
  with assms(1) have "in_bounds s pos" by (rule pos_invD)
  then show ?thesis by (auto simp: in_bounds_def)
qed

lemma topology_upd [simp]:
  "topology (s\<lparr>cells := g\<rparr>) = topology s"
  "topology (s\<lparr>empties_set := E\<rparr>) = topology s"
  "topology (s\<lparr>agent_pos := P\<rparr>) = topology s"
  "topology (s\<lparr>neighborhood_cache := C\<rparr>) = topology s"
  by (simp_all add: topology_def)

lemma topology_in_bounds: "topology s' = topology s \<Longrightarrow> in_bounds s' = in_bounds s"
  by (rule in_bounds_cong) (simp_all add: topology_def)

lemma topology_compute:
  "topology s' = topology s \<Longrightarrow> compute_neighborhood s' = compute_neighborhood s"
  by (rule compute_neighborhood_cong) (simp_all add: topology_def)

lemma frame_refl [simp]: "frame s s"
  by (simp add: frame_def)

lemma frame_trans: "frame s t \<Longrightarrow> frame t u \<Longrightarrow> frame s u"
  by (simp add: frame_def)

lemma frame_upd [simp]:
  "frame s (t\<lparr>cells := g\<rparr>) = frame s t"
  "frame s (t\<lparr>empties_set := E\<rparr>) = frame s t"
  "frame s (t\<lparr>agent_pos := P\<rparr>) = frame s t"
  by (simp_all add: frame_def)

lemma result_state_simps [simp]:
  "result_state (Inl (e, s)) = s" "result_state (Inr s) = s"
  by (simp_all add: result_state_def)

lemma MultiGrid_place_agent_frame: "frame s (result_state (MultiGrid_place_agent a pos s))"
  by (cases "locate (cells s) pos") (simp_all add: MultiGrid_place_agent_def)

lemma SingleGrid_place_agent_frame: "frame s (result_state (SingleGrid_place_agent a pos s))"
  by (simp add: SingleGrid_place_agent_def MultiGrid_place_agent_frame)

lemma Grid_place_agent_frame: "frame s (result_state (Grid_place_agent a pos s))"
proof (cases "is_cell_empty s pos")
  case True
  then show ?thesis by (simp add: Grid_place_agent_def SingleGrid_place_agent_frame)
next
  case False
  show ?thesis
  proof (cases "locate (cells s) pos")
    case None
    with False show ?thesis by (simp add: Grid_place_agent_def)
  next
    case (Some ij)
    let ?t = "s\<lparr>cells := cell_update (cells s) ij [], empties_set := insert pos (empties_set s)\<rparr>"
    have "frame s ?t" by simp
    moreover have "frame ?t (result_state (SingleGrid_place_agent a pos ?t))"
      by (rule SingleGrid_place_agent_frame)
    ultimately have "frame s (result_state (SingleGrid_place_agent a pos ?t))"
      by (rule frame_trans)
    with False Some show ?thesis by (simp add: Grid_place_agent_def)
  qed
qed

lemma place_agent_frame: "frame s (result_state (place_agent a pos s))"
  by (cases "cls s")
    (simp_all add: place_agent_def MultiGrid_place_agent_frame SingleGrid_place_agent_frame
      Grid_place_agent_frame)

lemma remove_agent_frame: "frame s (result_state (remove_agent a s))"
proof (cases "agent_pos s a")
  case None
  then show ?thesis by (simp add: remove_agent_def)
next
  case (Some pos)
  show ?thesis
  proof (cases "locate (cells s) pos")
    case None
    with Some show ?thesis by (simp add: remove_agent_def)
  next
    case (Some ij)
    with \<open>agent_pos s a = Some pos\<close> show ?thesis
      by (simp add: remove_agent_def Let_def)
  qed
qed

lemma move_agent_frame: "frame s (result_state (move_agent a pos s))"
proof (cases "torus_adj s pos")
  case (Inl e)
  then show ?thesis by (simp add: move_agent_def)
next
  case (Inr pos')
  show ?thesis
  proof (cases "remove_agent a s")
    case (Inl err)
    have "frame s (result_state (remove_agent a s))" by (rule remove_agent_frame)
    with Inl Inr show ?thesis by (cases err) (simp add: move_agent_def)
  next
    case r: (Inr s1)
    have "frame s (result_state (remove_agent a s))" by (rule remove_agent_frame)
    then have "frame s s1" using r by simp
    moreover have "frame s1 (result_state (place_agent a pos' s1))" by (rule place_agent_frame)
    ultimately have "frame s (result_state (place_agent a pos' s1))" by (rule frame_trans)
    with Inr r show ?thesis by (simp add: move_agent_def)
  qed
qed

lemma move_to_empty_frame: "frame s (result_state (move_to_empty a r s))"
  by (cases "choice r (empties s)") (simp_all add: move_to_empty_def move_agent_frame)

lemma position_agent_frame: "frame s (result_state (position_agent a x y r s))"
proof -
  have p: "frame s (result_state (place_agent a c (s\<lparr>agent_pos := (agent_pos s)(a := Some c)\<rparr>)))"
    for c
    using place_agent_frame[of "s\<lparr>agent_pos := (agent_pos s)(a := Some c)\<rparr>" a c]
    by (simp add: frame_def)
  show ?thesis
    by (cases "choice r (empties s)") (simp_all add: position_agent_def p)
qed

lemma setitem_frame: "frame s (result_state (setitem pos a s))"
  by (cases "locate (cells s) pos") (simp_all add: setitem_def)


lemma move_agent_InrD:
  assumes "move_agent a pos s = Inr s'"
  obtains pos' s1 where "torus_adj s pos = Inr pos'" "remove_agent a s = Inr s1"
    "place_agent a pos' s1 = Inr s'"
proof (cases "torus_adj s pos")
  case (Inl e)
  with assms show ?thesis by (simp add: move_agent_def)
next
  case t: (Inr pos')
  show ?thesis
  proof (cases "remove_agent a s")
    case (Inl err)
    with assms t show ?thesis by (simp add: move_agent_def)
  next
    case (Inr s1)
    with assms t have "place_agent a pos' s1 = Inr s'" by (simp add: move_agent_def)
    with t Inr show ?thesis by (rule that)
  qed
qed

lemma move_agent_inv:
  assumes "grid_inv s" "move_agent a pos s = Inr s'"
  shows "grid_inv s'"
proof -
  from assms(2) obtain pos' s1 where t: "torus_adj s pos = Inr pos'"
    and r: "remove_agent a s = Inr s1" and p: "place_agent a pos' s1 = Inr s'"
    by (rule move_agent_InrD)
  from assms(1) have sh: "shape_inv s" and po: "pos_inv s" by (simp_all add: grid_inv_def)
  from remove_agent_placed[OF po r] have "0 < width s" "0 < height s" by simp_all
  with sh have "in_bounds s pos'" using t by (rule torus_adj_in_bounds)
  moreover have "frame s s1" using remove_agent_frame[of s a] r by simp
  then have "topology s1 = topology s" by (simp add: frame_def)
  then have "in_bounds s1 = in_bounds s" by (rule topology_in_bounds)
  ultimately have "in_bounds s1 pos'" by simp
  with remove_agent_inv[OF assms(1) r] show ?thesis using p by (rule place_agent_inv)
qed

lemma finite_all_cells: "finite {pos. in_bounds s pos}"
proof -
  have "{pos. in_bounds s pos} \<subseteq> {0..<width s} \<times> {0..<height s}"
    by (auto simp: in_bounds_def)
  then show ?thesis by (rule finite_subset) simp
qed

lemma finite_empties:
  assumes "empties_inv s"
  shows "finite (empties_set s)"
proof -
  have "empties_set s \<subseteq> {pos. in_bounds s pos}"
    using empties_invD[OF assms] by blast
  then show ?thesis using finite_all_cells by (rule finite_subset)
qed

lemma choice_empties:
  assumes "empties_inv s" "choice r (empties s) = Inr pos"
  shows "pos \<in> empties_set s"
proof -
  from assms(2) have ne: "empties s \<noteq> []"
    by (cases "empties s = []") (simp_all add: choice_def)
  with assms(2) have p: "pos = empties s ! (r mod length (empties s))"
    by (simp add: choice_def)
  from ne have "r mod length (empties s) < length (empties s)" by simp
  then have "pos \<in> set (empties s)" unfolding p by (rule nth_mem)
  then show ?thesis using finite_empties[OF assms(1)] by (simp add: empties_def)
qed

lemma choice_total:
  assumes "empties_inv s" "empties_set s \<noteq> {}"
  shows "\<exists>pos \<in> empties_set s. choice r (empties s) = Inr pos"
proof -
  have "empties s \<noteq> []"
    using assms finite_empties[OF assms(1)] by (simp add: empties_def)
  then obtain pos where "choice r (empties s) = Inr pos" by (simp add: choice_def)
  with choice_empties[OF assms(1)] show ?thesis by blast
qed

lemma move_to_empty_InrD:
  assumes "move_to_empty a r s = Inr s'"
  obtains new_pos where "empties_set s \<noteq> {}" "choice r (empties s) = Inr new_pos"
    "move_agent a new_pos s = Inr s'"
proof (cases "empties_set s = {}")
  case True
  with assms show ?thesis by (simp add: move_to_empty_def)
next
  case False
  show ?thesis
  proof (cases "choice r (empties s)")
    case (Inl e)
    with assms False show ?thesis by (simp add: move_to_empty_def)
  next
    case (Inr new_pos)
    with assms False have "move_agent a new_pos s = Inr s'" by (simp add: move_to_empty_def)
    with False Inr show ?thesis by (rule that)
  qed
qed

lemma move_to_empty_inv:
  assumes "grid_inv s" "move_to_empty a r s = Inr s'"
  shows "grid_inv s'"
proof -
  from assms(2) obtain new_pos where "move_agent a new_pos s = Inr s'"
    by (rule move_to_empty_InrD)
  with assms(1) show ?thesis by (rule move_agent_inv)
qed


lemma position_agent_InrD:
  assumes "position_agent a x y r s = Inr s'"
  obtains coords where
    "place_agent a coords (s\<lparr>agent_pos := (agent_pos s)(a := Some coords)\<rparr>) = Inr s'"
    "(x = None \<or> y = None) \<and> empties_set s \<noteq> {} \<and> choice r (empties s) = Inr coords \<or>
     x = Some (fst coords) \<and> y = Some (snd coords)"
proof (cases "cls s = MultiGrid")
  case True
  with assms show ?thesis by (simp add: position_agent_def)
next
  case nm: False
  show ?thesis
  proof (cases "x = None \<or> y = None")
    case True
    show ?thesis
    proof (cases "empties_set s = {}")
      case e: True
      with assms nm True show ?thesis by (simp add: position_agent_def)
    next
      case e: False
      show ?thesis
      proof (cases "choice r (empties s)")
        case (Inl err)
        with assms nm True e show ?thesis by (simp add: position_agent_def)
      next
        case (Inr coords)
        with assms nm True e
        have "place_agent a coords (s\<lparr>agent_pos := (agent_pos s)(a := Some coords)\<rparr>) = Inr s'"
          by (simp add: position_agent_def)
        then show ?thesis using True e Inr by (intro that[of coords]) simp_all
      qed
    qed
  next
    case False
    then obtain x' y' where xy: "x = Some x'" "y = Some y'" by auto
    with assms nm
    have "place_agent a (x', y') (s\<lparr>agent_pos := (agent_pos s)(a := Some (x', y'))\<rparr>) = Inr s'"
      by (simp add: position_agent_def)
    then show ?thesis using xy by (intro that[of "(x', y')"]) simp_all
  qed
qed

lemma position_agent_inv:
  assumes "grid_inv s" "placement_call s (Position_agent a x y r)"
    "position_agent a x y r s = Inr s'"
  shows "grid_inv s'"
proof -
  from assms(1) have em: "empties_inv s" by (simp add: grid_inv_def)
  from assms(3) obtain coords where
    p: "place_agent a coords (s\<lparr>agent_pos := (agent_pos s)(a := Some coords)\<rparr>) = Inr s'"
    and c: "(x = None \<or> y = None) \<and> empties_set s \<noteq> {} \<and> choice r (empties s) = Inr coords \<or>
        x = Some (fst coords) \<and> y = Some (snd coords)"
    by (rule position_agent_InrD)
  have ib: "in_bounds s coords"
  proof (cases "x = None \<or> y = None")
    case True
    with c have "choice r (empties s) = Inr coords" by auto
    with em have "coords \<in> empties_set s" by (rule choice_empties)
    then show ?thesis using empties_invD[OF em, of coords] by simp
  next
    case False
    with c have "x = Some (fst coords)" "y = Some (snd coords)" by auto
    with assms(2) show ?thesis by simp
  qed
  let ?t = "s\<lparr>agent_pos := (agent_pos s)(a := Some coords)\<rparr>"
  have "grid_inv ?t" using assms(1) ib by (rule grid_inv_place)
  moreover have "in_bounds ?t coords" using ib by simp
  ultimately show ?thesis using p by (rule place_agent_inv)
qed

lemma get_neighborhood_cases:
  obtains (hit) v where "neighborhood_cache s (pos, moore, include_center, radius) = Some v"
      "get_neighborhood pos moore include_center radius s = Inr (v, s)"
  | (miss) v where "neighborhood_cache s (pos, moore, include_center, radius) = None"
      "compute_neighborhood s (pos, moore, include_center, radius) = Inr v"
      "get_neighborhood pos moore include_center radius s =
         Inr (v, s\<lparr>neighborhood_cache :=
                    (neighborhood_cache s)((pos, moore, include_center, radius) \<mapsto> v)\<rparr>)"
  | (raise) e where "neighborhood_cache s (pos, moore, include_center, radius) = None"
      "compute_neighborhood s (pos, moore, include_center, radius) = Inl e"
      "get_neighborhood pos moore include_center radius s = Inl (e, s)"
proof (cases "neighborhood_cache s (pos, moore, include_center, radius)")
  case (Some v)
  then show ?thesis by (intro hit[of v]) (simp_all add: get_neighborhood_def)
next
  case None
  show ?thesis
  proof (cases "compute_neighborhood s (pos, moore, include_center, radius)")
    case (Inl e)
    with None show ?thesis by (intro raise[of e]) (simp_all add: get_neighborhood_def)
  next
    case (Inr v)
    with None show ?thesis by (intro miss[of v]) (simp_all add: get_neighborhood_def)
  qed
qed

lemma cache_invD:
  "cache_inv s \<Longrightarrow> neighborhood_cache s key = Some v \<Longrightarrow> compute_neighborhood s key = Inr v"
  unfolding cache_inv_def by blast

lemma cache_inv_insert:
  assumes "cache_inv s" "compute_neighborhood s key = Inr v"
  shows "cache_inv (s\<lparr>neighborhood_cache := (neighborhood_cache s)(key \<mapsto> v)\<rparr>)"
proof -
  let ?t = "s\<lparr>neighborhood_cache := (neighborhood_cache s)(key \<mapsto> v)\<rparr>"
  have "topology ?t = topology s" by simp
  then have c: "compute_neighborhood ?t = compute_neighborhood s" by (rule topology_compute)
  show ?thesis
    unfolding cache_inv_def c
  proof (intro allI impI)
    fix k w assume "neighborhood_cache ?t k = Some w"
    then show "compute_neighborhood s k = Inr w"
      using assms(2) cache_invD[OF assms(1), of k w] by (cases "k = key") simp_all
  qed
qed

lemma get_neighborhood_inv:
  assumes "grid_inv s" "get_neighborhood pos moore include_center radius s = Inr (l, s')"
  shows "grid_inv s'"
proof (cases rule: get_neighborhood_cases[of s pos moore include_center radius])
  case (hit v)
  with assms show ?thesis by simp
next
  case (miss v)
  from assms(1) have "cache_inv s" by (simp add: grid_inv_def)
  then have "cache_inv (s\<lparr>neighborhood_cache :=
      (neighborhood_cache s)((pos, moore, include_center, radius) \<mapsto> v)\<rparr>)"
    using miss(2) by (rule cache_inv_insert)
  then have "grid_inv (s\<lparr>neighborhood_cache :=
      (neighborhood_cache s)((pos, moore, include_center, radius) \<mapsto> v)\<rparr>)"
    using assms(1) by (simp add: grid_inv_def)
  moreover have "s' = s\<lparr>neighborhood_cache :=
      (neighborhood_cache s)((pos, moore, include_center, radius) \<mapsto> v)\<rparr>"
    using assms(2) unfolding miss(3) by auto
  ultimately show ?thesis by simp
next
  case (raise e)
  with assms show ?thesis by simp
qed

lemma get_neighborhood_value:
  assumes "cache_inv s" "get_neighborhood pos moore include_center radius s = Inr (l, s')"
  shows "compute_neighborhood s (pos, moore, include_center, radius) = Inr l"
proof (cases rule: get_neighborhood_cases[of s pos moore include_center radius])
  case (hit v)
  with assms(2) have "l = v" by simp
  with cache_invD[OF assms(1) hit(1)] show ?thesis by simp
next
  case (miss v)
  with assms(2) show ?thesis by simp
next
  case (raise e)
  with assms show ?thesis by simp
qed

lemma get_neighborhood_total:
  assumes "cache_inv s" "compute_neighborhood s (pos, moore, include_center, radius) = Inr l"
  shows "\<exists>s'. get_neighborhood pos moore include_center radius s = Inr (l, s')"
proof (cases rule: get_neighborhood_cases[of s pos moore include_center radius])
  case (hit v)
  with cache_invD[OF assms(1) hit(1)] assms(2) show ?thesis by simp
next
  case (miss v)
  with assms(2) show ?thesis by simp
next
  case (raise e)
  with assms(2) show ?thesis by simp
qed

lemma run_inv:
  assumes "grid_inv s" "placement_call s c" "run c s = Inr s'"
  shows "grid_inv s'"
proof (cases c)
  case (Place_agent a pos)
  with assms(2,3) have "in_bounds s pos" "place_agent a pos s = Inr s'" by simp_all
  with assms(1) show ?thesis by (rule place_agent_inv)
next
  case (Position_agent a x y r)
  with assms(2,3) have "placement_call s (Position_agent a x y r)"
    "position_agent a x y r s = Inr s'" by simp_all
  with assms(1) show ?thesis by (rule position_agent_inv)
next
  case (Move_agent a pos)
  with assms(3) have "move_agent a pos s = Inr s'" by simp
  with assms(1) show ?thesis by (rule move_agent_inv)
next
  case (Remove_agent a)
  with assms(3) have "remove_agent a s = Inr s'" by simp
  with assms(1) show ?thesis by (rule remove_agent_inv)
next
  case (Move_to_empty a r)
  with assms(3) have "move_to_empty a r s = Inr s'" by simp
  with assms(1) show ?thesis by (rule move_to_empty_inv)
next
  case (Get_neighborhood pos moore include_center radius)
  with assms(2) show ?thesis by simp
next
  case (Setitem pos a)
  with assms(2) show ?thesis by simp
qed

lemma in_bounds_product:
  "set (List.product [0..w - 1] [0..h - 1]) =
   {pos. 0 \<le> fst pos \<and> fst pos < w \<and> 0 \<le> snd pos \<and> snd pos < h}"
  by auto

lemma grid_init_fields [simp]:
  "cls (grid_init c w h t ap) = c"
  "width (grid_init c w h t ap) = w"
  "height (grid_init c w h t ap) = h"
  "torus (grid_init c w h t ap) = t"
  "agent_pos (grid_init c w h t ap) = ap"
  "neighborhood_cache (grid_init c w h t ap) = Map.empty"
  by (simp_all add: grid_init_def)

lemma grid_init_inv:
  assumes "\<And>a pos. ap a = Some pos \<Longrightarrow> 0 \<le> fst pos \<and> fst pos < w \<and> 0 \<le> snd pos \<and> snd pos < h"
  shows "grid_inv (grid_init c w h t ap)"
proof -
  let ?s = "grid_init c w h t ap"
  have ib: "in_bounds ?s pos \<longleftrightarrow> 0 \<le> fst pos \<and> fst pos < w \<and> 0 \<le> snd pos \<and> snd pos < h"
    for pos by (simp add: in_bounds_def)
  have e: "empties_set ?s = {pos. in_bounds ?s pos}" "all_cells_set ?s = {pos. in_bounds ?s pos}"
    by (auto simp: in_bounds_def grid_init_def)
  have "shape_inv ?s"
    unfolding shape_inv_def using e(2) by (simp add: grid_init_def)
  moreover have c: "content ?s pos = []" if "in_bounds ?s pos" for pos
    using that unfolding ib by (simp add: content_def grid_init_def cell_at_def)
  have "empties_inv ?s"
    unfolding empties_inv_def e(1) using c by blast
  moreover have "pos_inv ?s"
    unfolding pos_inv_def using assms ib by simp
  moreover have "cache_inv ?s" by (simp add: cache_inv_def)
  ultimately show ?thesis by (simp add: grid_inv_def)
qed

lemma grid_init_inv_unplaced: "grid_inv (grid_init c w h t (\<lambda>a. None))"
  by (rule grid_init_inv) simp


lemma state_after_result: "state_after c s = result_state (run c s)"
  by (simp add: state_after_def result_state_def)

lemma run_returns: "\<not> isl (run c s) \<Longrightarrow> run c s = Inr (state_after c s)"
  by (cases "run c s") (simp_all add: state_after_def)

lemma state_after_inv:
  assumes "grid_inv s" "placement_call s c" "\<not> isl (run c s)"
  shows "grid_inv (state_after c s)"
  using assms(1,2) run_returns[OF assms(3)] by (rule run_inv)


lemma getitem_not_empty:
  assumes "shape_inv s" "empties_inv s" "getitem s pos = Inr c" "c \<noteq> []"
  shows "pos \<notin> empties_set s"
proof
  assume e: "pos \<in> empties_set s"
  then have ib: "in_bounds s pos" and "content s pos = []"
    using empties_invD[OF assms(2), of pos] by simp_all
  with getitem_in_bounds[OF assms(1) ib] assms(3,4) show False by simp
qed


lemma cell_update_restore:
  "cell_update (cell_update g ij c') ij (cell_at g ij) = g"
  by (cases "fst ij < length g") (simp_all add: cell_update_def cell_at_def list_update_beyond)

lemma set_content_restore:
  "set_content (set_content s pos c') pos (content s pos) = s"
  by (simp add: set_content_twice set_content_same)

lemma set_content_upd:
  "set_content (s\<lparr>empties_set := E\<rparr>) pos c = (set_content s pos c)\<lparr>empties_set := E\<rparr>"
  "set_content (s\<lparr>agent_pos := P\<rparr>) pos c = (set_content s pos c)\<lparr>agent_pos := P\<rparr>"
  by (simp_all add: set_content_def)

lemma content_on_grid:
  assumes "shape_inv s" "in_bounds s pos" "a \<in> set (content s pos)"
  shows "on_grid s a"
proof -
  let ?i = "nat (fst pos)" and ?j = "nat (snd pos)"
  from assms(1,2) have i: "?i < length (cells s)"
    by (auto simp: shape_inv_def in_bounds_def)
  then have m: "cells s ! ?i \<in> set (cells s)" by (rule nth_mem)
  with assms(1,2) have "?j < length (cells s ! ?i)"
    by (auto simp: shape_inv_def in_bounds_def)
  then have "cells s ! ?i ! ?j \<in> set (cells s ! ?i)" by (rule nth_mem)
  with m assms(3) show ?thesis
    unfolding on_grid_def content_def cell_at_def by auto
qed


lemma Grid_place_agent_effect:
  assumes "grid_inv s" "cls s = Grid" "in_bounds s pos"
  shows "place_agent b pos s =
         Inr ((set_content s pos [b])
                \<lparr>empties_set := empties_set s - {pos},
                 agent_pos := (agent_pos s)(b := Some pos)\<rparr>)"
proof (cases "is_cell_empty s pos")
  case True
  from assms(1) have sh: "shape_inv s" and em: "empties_inv s" by (simp_all add: grid_inv_def)
  from True have "content s pos = []"
    using empties_invD[OF em, of pos] by (simp add: is_cell_empty_def)
  with MultiGrid_place_agent_in_bounds[OF sh assms(3), of b] True assms(2)
  show ?thesis
    by (simp add: place_agent_def Grid_place_agent_def SingleGrid_place_agent_def)
next
  case False
  from assms(1) have sh: "shape_inv s" by (simp add: grid_inv_def)
  let ?t = "(set_content s pos [])\<lparr>empties_set := insert pos (empties_set s)\<rparr>"
  have sht: "shape_inv ?t" using shape_inv_set_content[OF sh, of pos "[]"] by simp
  have ibt: "in_bounds ?t pos" using assms(3) by simp
  have ct: "content ?t pos = []"
    using content_set_content[OF sh assms(3) assms(3), of "[]"] by simp
  have "Grid_place_agent b pos s = SingleGrid_place_agent b pos ?t"
    using False locate_in_bounds[OF sh assms(3)]
    by (simp add: Grid_place_agent_def set_content_def)
  also have "\<dots> = MultiGrid_place_agent b pos ?t"
    by (simp add: SingleGrid_place_agent_def is_cell_empty_def)
  also have "\<dots> = Inr ((set_content ?t pos (content ?t pos @ [b]))
                \<lparr>empties_set := empties_set ?t - {pos},
                 agent_pos := (agent_pos ?t)(b := Some pos)\<rparr>)"
    by (rule MultiGrid_place_agent_in_bounds[OF sht ibt])
  also have "\<dots> = Inr ((set_content s pos [b])
                \<lparr>empties_set := empties_set s - {pos},
                 agent_pos := (agent_pos s)(b := Some pos)\<rparr>)"
    unfolding ct by (simp add: set_content_upd set_content_twice)
  finally show ?thesis using assms(2) by (simp add: place_agent_def)
qed


lemma MultiGrid_place_agent_not_GridFull: "MultiGrid_place_agent a pos s \<noteq> Inl (GridFull, t)"
  by (cases "locate (cells s) pos") (simp_all add: MultiGrid_place_agent_def)

lemma SingleGrid_place_agent_not_GridFull: "SingleGrid_place_agent a pos s \<noteq> Inl (GridFull, t)"
  by (simp add: SingleGrid_place_agent_def MultiGrid_place_agent_not_GridFull)

lemma Grid_place_agent_not_GridFull: "Grid_place_agent a pos s \<noteq> Inl (GridFull, t)"
  by (cases "locate (cells s) pos")
    (simp_all add: Grid_place_agent_def SingleGrid_place_agent_not_GridFull)

lemma place_agent_not_GridFull: "place_agent a pos s \<noteq> Inl (GridFull, t)"
  by (cases "cls s")
    (simp_all add: place_agent_def MultiGrid_place_agent_not_GridFull
      SingleGrid_place_agent_not_GridFull Grid_place_agent_not_GridFull)

lemma remove_agent_not_GridFull: "remove_agent a s \<noteq> Inl (GridFull, t)"
proof (cases "agent_pos s a")
  case None
  then show ?thesis by (simp add: remove_agent_def)
next
  case (Some pos)
  then show ?thesis
    by (cases "locate (cells s) pos") (simp_all add: remove_agent_def Let_def)
qed

lemma move_agent_in_bounds:
  assumes "shape_inv s" "in_bounds s pos"
  shows "move_agent a pos s =
         (case remove_agent a s of Inl err \<Rightarrow> Inl err | Inr s1 \<Rightarrow> place_agent a pos s1)"
proof -
  from assms have "\<not> out_of_bounds s pos" by (simp add: out_of_bounds_def shape_inv_def)
  then have "torus_adj s pos = Inr pos" by (simp add: torus_adj_def)
  then show ?thesis by (simp add: move_agent_def)
qed


lemma state_after_frame:
  assumes "\<And>pos moore include_center radius. c \<noteq> Get_neighborhood pos moore include_center radius"
  shows "frame s (state_after c s)"
proof (cases c)
  case (Get_neighborhood pos moore include_center radius)
  with assms show ?thesis by blast
qed (simp_all add: state_after_result place_agent_frame position_agent_frame move_agent_frame
      remove_agent_frame move_to_empty_frame setitem_frame)

lemma state_after_Get_neighborhood:
  "state_after (Get_neighborhood pos moore include_center radius) s = s \<or>
   (neighborhood_cache s (pos, moore, include_center, radius) = None \<and>
    (\<exists>v. state_after (Get_neighborhood pos moore include_center radius) s =
       s\<lparr>neighborhood_cache :=
           (neighborhood_cache s)((pos, moore, include_center, radius) \<mapsto> v)\<rparr>))"
proof (cases rule: get_neighborhood_cases[of s pos moore include_center radius])
  case (hit v)
  then show ?thesis by (simp add: state_after_def)
next
  case (miss v)
  then have "state_after (Get_neighborhood pos moore include_center radius) s =
       s\<lparr>neighborhood_cache :=
           (neighborhood_cache s)((pos, moore, include_center, radius) \<mapsto> v)\<rparr>"
    by (simp add: state_after_def)
  with miss(1) show ?thesis by blast
next
  case (raise e)
  then show ?thesis by (simp add: state_after_def)
qed

lemma state_after_cache:
  assumes "neighborhood_cache s key = Some v"
  shows "neighborhood_cache (state_after c s) key = Some v"
proof (cases "\<exists>pos moore include_center radius. c = Get_neighborhood pos moore include_center radius")
  case False
  then have "frame s (state_after c s)" by (intro state_after_frame) blast
  with assms show ?thesis by (simp add: frame_def)
next
  case True
  then obtain pos moore include_center radius
    where c: "c = Get_neighborhood pos moore include_center radius" by blast
  from state_after_Get_neighborhood[of pos moore include_center radius s]
  show ?thesis
  proof
    assume "state_after (Get_neighborhood pos moore include_center radius) s = s"
    with assms c show ?thesis by simp
  next
    assume m: "neighborhood_cache s (pos, moore, include_center, radius) = None \<and>
      (\<exists>w. state_after (Get_neighborhood pos moore include_center radius) s =
         s\<lparr>neighborhood_cache :=
             (neighborhood_cache s)((pos, moore, include_center, radius) \<mapsto> w)\<rparr>)"
    with assms have "key \<noteq> (pos, moore, include_center, radius)" by auto
    with m assms c show ?thesis by auto
  qed
qed

lemma run_calls_cache:
  "neighborhood_cache s key = Some v \<Longrightarrow> neighborhood_cache (run_calls cs s) key = Some v"
  unfolding run_calls_def
  by (induction cs arbitrary: s) (simp_all add: state_after_cache)

lemma get_neighborhood_cached:
  assumes "get_neighborhood pos moore include_center radius s = Inr (l, s1)"
  shows "neighborhood_cache s1 (pos, moore, include_center, radius) = Some l"
proof (cases rule: get_neighborhood_cases[of s pos moore include_center radius])
  case (hit v)
  with assms show ?thesis by auto
next
  case (miss v)
  with assms show ?thesis by auto
next
  case (raise e)
  with assms show ?thesis by simp
qed

lemma get_neighborhood_hit:
  "neighborhood_cache s (pos, moore, include_center, radius) = Some l \<Longrightarrow>
   get_neighborhood pos moore include_center radius s = Inr (l, s)"
  by (simp add: get_neighborhood_def)

lemma get_neighborhood_returns:
  assumes "\<not> isl (get_neighborhood pos moore include_center radius s)"
  shows "get_neighborhood pos moore include_center radius s =
         Inr (fst (projr (get_neighborhood pos moore include_center radius s)),
              state_after (Get_neighborhood pos moore include_center radius) s)"
  using assms
  by (cases "get_neighborhood pos moore include_center radius s")
    (auto simp: state_after_def)


lemma compute_neighborhood_grid_init:
  assumes "shape_inv s"
  shows "compute_neighborhood s =
         compute_neighborhood (grid_init c (width s) (height s) (torus s) ap)"
proof (rule compute_neighborhood_cong[symmetric])
  let ?t = "grid_init c (width s) (height s) (torus s) ap"
  have "in_bounds ?t = in_bounds s" by (rule in_bounds_cong) simp_all
  moreover have "all_cells_set ?t = {pos. in_bounds ?t pos}"
    by (auto simp: grid_init_def in_bounds_def)
  ultimately show "all_cells_set ?t = all_cells_set s"
    using assms by (simp add: shape_inv_def)
qed simp_all

subsection \<open>The set of coordinates the loops of \<^verbatim>\<open>get_neighborhood\<close> collect\<close>

















lemma finite_neighborhood_set: "finite {(a, b). \<bar>a - x\<bar> \<le> (r :: int) \<and> \<bar>b - y\<bar> \<le> (r :: int) \<and> Q a b}"
proof -
  have "{(a, b). \<bar>a - x\<bar> \<le> r \<and> \<bar>b - y\<bar> \<le> r \<and> Q a b} \<subseteq> {x - r..x + r} \<times> {y - r..y + r}"
    by auto
  then show ?thesis by (rule finite_subset) simp
qed












section \<open>The claims\<close>


subsection \<open>C1: the evicting grid leaves the position of the evicted agent set\<close>

text \<open>
  C1. The claim: on a \<^verbatim>\<open>Grid\<close>, placing agent B on the cell of a different agent A first
  removes A fully (A's \<^verbatim>\<open>pos\<close> becomes \<^verbatim>\<open>None\<close>, A is in no cell), then B is alone in the
  cell and the call always returns. The code (\<open>Grid_place_agent_effect\<close>, for every
  well-formed state and canonical coordinate) returns, leaves B alone in the cell and
  takes the coordinate out of \<^verbatim>\<open>_empties\<close>, but writes the \<^verbatim>\<open>pos\<close> attribute of B only:
  \<^verbatim>\<open>self._grid[x][y].clear()\<close> empties the cell without the
  \<^verbatim>\<open>setattr(agent, "pos", None)\<close> that \<^verbatim>\<open>remove_agent\<close> does. The theorem runs the code
  on a 3 by 3 \<^verbatim>\<open>Grid\<close>: agent 1 is placed at (1, 1), then agent 2 at (1, 1). The second
  call returns, the cell holds agent 2 alone, agent 1 is in no cell, and the \<^verbatim>\<open>pos\<close> of
  agent 1 is still (1, 1); a later \<^verbatim>\<open>remove_agent\<close> of agent 1 raises \<^verbatim>\<open>ValueError\<close>.
\<close>

theorem Grid_place_agent_keeps_evicted_pos:
  "run (Place_agent 2 (1, 1))
       (state_after (Place_agent 1 (1, 1)) (grid_init Grid 3 3 False (\<lambda>a. None))) =
     Inr (run_calls [Place_agent 1 (1, 1), Place_agent 2 (1, 1)]
            (grid_init Grid 3 3 False (\<lambda>a. None))) \<and>
   getitem (run_calls [Place_agent 1 (1, 1), Place_agent 2 (1, 1)]
              (grid_init Grid 3 3 False (\<lambda>a. None))) (1, 1) = Inr [2] \<and>
   \<not> on_grid (run_calls [Place_agent 1 (1, 1), Place_agent 2 (1, 1)]
                (grid_init Grid 3 3 False (\<lambda>a. None))) 1 \<and>
   agent_pos (run_calls [Place_agent 1 (1, 1), Place_agent 2 (1, 1)]
                (grid_init Grid 3 3 False (\<lambda>a. None))) 1 = Some (1, 1) \<and>
   (case remove_agent 1 (run_calls [Place_agent 1 (1, 1), Place_agent 2 (1, 1)]
                           (grid_init Grid 3 3 False (\<lambda>a. None))) of
      Inl (e, t) \<Rightarrow> e = ValueError
    | Inr t \<Rightarrow> False)"
proof -
  let ?init = "grid_init Grid 3 3 False (\<lambda>a. None)"
  let ?sA = "state_after (Place_agent 1 (1, 1)) ?init"
  let ?sB = "run_calls [Place_agent 1 (1, 1), Place_agent 2 (1, 1)] ?init"
  have b: "?sB = state_after (Place_agent 2 (1, 1)) ?sA" by (simp add: run_calls_def)
  have "\<not> isl (run (Place_agent 2 (1, 1)) ?sA)" by code_simp
  then have 1: "run (Place_agent 2 (1, 1)) ?sA = Inr ?sB" unfolding b by (rule run_returns)
  have 2: "getitem ?sB (1, 1) = Inr [2]" by code_simp
  have 3: "\<not> on_grid ?sB 1" by code_simp
  have 4: "agent_pos ?sB 1 = Some (1, 1)" by code_simp
  have 5: "case remove_agent 1 ?sB of Inl (e, t) \<Rightarrow> e = ValueError | Inr t \<Rightarrow> False"
    by code_simp
  show ?thesis using 1 2 3 4 5 by blast
qed


subsection \<open>C2: \<^verbatim>\<open>move_to_empty\<close> draws the destination before it removes the agent\<close>

text \<open>
  C2. The claim: \<^verbatim>\<open>move_to_empty\<close> removes the agent, then draws the destination from
  \<^verbatim>\<open>_empties\<close> as it stands after the removal (so the vacated cell can be drawn when it
  is the only empty one), and raises "No empty cells" (\<open>GridFull\<close>) exactly when that set
  is empty. The code tests \<^verbatim>\<open>len(self._empties) == 0\<close> and draws from \<^verbatim>\<open>self.empties\<close>
  first, and only then calls \<^verbatim>\<open>move_agent\<close>. On the 1 by 1 grid whose only cell holds
  agent 1, \<^verbatim>\<open>_empties\<close> after the removal of the agent would be the one coordinate
  (0, 0), yet the call raises \<open>GridFull\<close> for every draw of the random source and changes
  nothing.
\<close>

theorem move_to_empty_full_grid_counterexample:
  "(\<forall>r. move_to_empty 1 r
          (state_after (Place_agent 1 (0, 0)) (grid_init MultiGrid 1 1 False (\<lambda>a. None))) =
        Inl (GridFull,
             state_after (Place_agent 1 (0, 0)) (grid_init MultiGrid 1 1 False (\<lambda>a. None)))) \<and>
   empties_set (state_after (Remove_agent 1)
                  (state_after (Place_agent 1 (0, 0)) (grid_init MultiGrid 1 1 False (\<lambda>a. None)))) =
     {(0, 0)} \<and>
   getitem (state_after (Place_agent 1 (0, 0)) (grid_init MultiGrid 1 1 False (\<lambda>a. None))) (0, 0) =
     Inr [1]"
proof -
  let ?s = "state_after (Place_agent 1 (0, 0)) (grid_init MultiGrid 1 1 False (\<lambda>a. None))"
  have e: "empties_set ?s = {}" by code_simp
  have "move_to_empty 1 r ?s = Inl (GridFull, ?s)" for r
    unfolding move_to_empty_def e by (rule if_P) (rule refl)
  then have 1: "\<forall>r. move_to_empty 1 r ?s = Inl (GridFull, ?s)" by blast
  have 2: "empties_set (state_after (Remove_agent 1) ?s) = {(0, 0)}" by code_simp
  have 3: "getitem ?s (0, 0) = Inr [1]" by code_simp
  show ?thesis using 1 2 3 by blast
qed

text \<open>
  C2 as amended. In a well-formed state, \<^verbatim>\<open>move_to_empty\<close> raises \<open>GridFull\<close> exactly when
  \<^verbatim>\<open>_empties\<close> is empty when the call is made, before the agent is removed, and then
  changes nothing. Otherwise the destination is a coordinate of \<^verbatim>\<open>_empties\<close> as it stands
  before the removal, hence never the cell the agent is in, and the call is
  \<^verbatim>\<open>remove_agent(agent)\<close> followed by \<^verbatim>\<open>place_agent(agent, destination)\<close>.
\<close>

theorem move_to_empty_draws_before_removal:
  assumes "grid_inv s"
  shows "((\<exists>t. move_to_empty a r s = Inl (GridFull, t)) \<longleftrightarrow> empties_set s = {}) \<and>
         (empties_set s = {} \<longrightarrow> move_to_empty a r s = Inl (GridFull, s)) \<and>
         (empties_set s \<noteq> {} \<longrightarrow>
            (\<exists>new_pos \<in> empties_set s.
               move_to_empty a r s =
                 (case remove_agent a s of
                    Inl err \<Rightarrow> Inl err
                  | Inr s1 \<Rightarrow> place_agent a new_pos s1) \<and>
               (\<forall>p c. agent_pos s a = Some p \<and> getitem s p = Inr c \<and> a \<in> set c
                      \<longrightarrow> new_pos \<noteq> p)))"
proof (cases "empties_set s = {}")
  case True
  then have "move_to_empty a r s = Inl (GridFull, s)" by (simp add: move_to_empty_def)
  with True show ?thesis by simp
next
  case False
  from assms have sh: "shape_inv s" and em: "empties_inv s" by (simp_all add: grid_inv_def)
  from choice_total[OF em False, of r] obtain new_pos
    where n: "new_pos \<in> empties_set s" and c: "choice r (empties s) = Inr new_pos" by blast
  from n have ib: "in_bounds s new_pos" using empties_invD[OF em, of new_pos] by simp
  have m: "move_to_empty a r s =
      (case remove_agent a s of Inl err \<Rightarrow> Inl err | Inr s1 \<Rightarrow> place_agent a new_pos s1)"
    using False c move_agent_in_bounds[OF sh ib, of a] by (simp add: move_to_empty_def)
  have ng: "move_to_empty a r s \<noteq> Inl (GridFull, t)" for t
    unfolding m using remove_agent_not_GridFull[of a s t] place_agent_not_GridFull
    by (cases "remove_agent a s") auto
  have v: "new_pos \<noteq> p" if "getitem s p = Inr c" "a \<in> set c" for p c
  proof -
    from that(2) have "c \<noteq> []" by auto
    with sh em that(1) have "p \<notin> empties_set s" by (rule getitem_not_empty)
    with n show ?thesis by auto
  qed
  show ?thesis using False n m ng v by blast
qed

theorem move_to_empty_draws_before_removal_witness:
  "grid_inv (state_after (Place_agent 1 (0, 0)) (grid_init MultiGrid 2 1 False (\<lambda>a. None))) \<and>
   empties_set (state_after (Place_agent 1 (0, 0)) (grid_init MultiGrid 2 1 False (\<lambda>a. None))) \<noteq> {} \<and>
   \<not> (\<exists>t. move_to_empty 1 0
              (state_after (Place_agent 1 (0, 0)) (grid_init MultiGrid 2 1 False (\<lambda>a. None))) =
            Inl (GridFull, t)) \<and>
   agent_pos (state_after (Move_to_empty 1 0)
                (state_after (Place_agent 1 (0, 0)) (grid_init MultiGrid 2 1 False (\<lambda>a. None)))) 1 =
     Some (1, 0)"
proof -
  let ?init = "grid_init MultiGrid 2 1 False (\<lambda>a. None)"
  let ?c = "Place_agent 1 (0, 0)"
  let ?s = "state_after ?c ?init"
  have g0: "grid_inv ?init" by (rule grid_init_inv_unplaced)
  have p0: "placement_call ?init ?c" by (simp add: in_bounds_def)
  have r0: "\<not> isl (run ?c ?init)" by code_simp
  have g: "grid_inv ?s" using g0 p0 r0 by (rule state_after_inv)
  have e: "empties_set ?s \<noteq> {}" by code_simp
  have a: "agent_pos (state_after (Move_to_empty 1 0) ?s) 1 = Some (1, 0)" by code_simp
  show ?thesis using g e a move_to_empty_draws_before_removal[OF g, of 1 0] by blast
qed


subsection \<open>C3: the empty set and the cells agree after every placement call\<close>

text \<open>
  C3. After every successful call of the Placement Protocol (\<^verbatim>\<open>place_agent\<close>,
  \<^verbatim>\<open>position_agent\<close>, \<^verbatim>\<open>move_agent\<close>, \<^verbatim>\<open>remove_agent\<close>, \<^verbatim>\<open>move_to_empty\<close>), for every
  class of grid (\<open>cls s\<close> is arbitrary), a coordinate is in \<^verbatim>\<open>_empties\<close> if and only if it
  is a coordinate of the grid and the cell there holds no agent. The call starts in a
  well-formed state (\<open>grid_inv\<close>, which \<^verbatim>\<open>__init__\<close> establishes: \<open>grid_init_inv\<close>) and
  the coordinate given to \<^verbatim>\<open>place_agent\<close> or \<^verbatim>\<open>position_agent\<close> is canonical, as the
  specification assumes of these two calls (\<open>placement_call\<close>); the state after a
  call that returns is well-formed again, so the property holds along every sequence of
  such calls that return.
\<close>

theorem empties_iff_no_agents:
  assumes "grid_inv s" and "placement_call s c" and "run c s = Inr s'"
  shows "grid_inv s' \<and>
         (\<forall>pos. pos \<in> empties_set s' \<longleftrightarrow> in_bounds s' pos \<and> getitem s' pos = Inr [])"
proof -
  have g: "grid_inv s'" using assms by (rule run_inv)
  then have sh: "shape_inv s'" and em: "empties_inv s'" by (simp_all add: grid_inv_def)
  have "pos \<in> empties_set s' \<longleftrightarrow> in_bounds s' pos \<and> getitem s' pos = Inr []" for pos
    using empties_invD[OF em, of pos] getitem_in_bounds[OF sh, of pos] by auto
  with g show ?thesis by blast
qed

theorem empties_iff_no_agents_witness:
  "grid_inv (grid_init Grid 3 3 False (\<lambda>a. None)) \<and>
   placement_call (grid_init Grid 3 3 False (\<lambda>a. None)) (Place_agent 1 (1, 1)) \<and>
   run (Place_agent 1 (1, 1)) (grid_init Grid 3 3 False (\<lambda>a. None)) =
     Inr (state_after (Place_agent 1 (1, 1)) (grid_init Grid 3 3 False (\<lambda>a. None))) \<and>
   (\<forall>pos. pos \<in> empties_set (state_after (Place_agent 1 (1, 1)) (grid_init Grid 3 3 False (\<lambda>a. None))) \<longleftrightarrow>
      in_bounds (state_after (Place_agent 1 (1, 1)) (grid_init Grid 3 3 False (\<lambda>a. None))) pos \<and>
      getitem (state_after (Place_agent 1 (1, 1)) (grid_init Grid 3 3 False (\<lambda>a. None))) pos = Inr []) \<and>
   getitem (state_after (Place_agent 1 (1, 1)) (grid_init Grid 3 3 False (\<lambda>a. None))) (1, 1) = Inr [1]"
proof -
  let ?s = "grid_init Grid 3 3 False (\<lambda>a. None)"
  let ?c = "Place_agent 1 (1, 1)"
  have g: "grid_inv ?s" by (rule grid_init_inv_unplaced)
  have p: "placement_call ?s ?c" by (simp add: in_bounds_def)
  have "\<not> isl (run ?c ?s)" by code_simp
  then have r: "run ?c ?s = Inr (state_after ?c ?s)" by (rule run_returns)
  have c: "getitem (state_after ?c ?s) (1, 1) = Inr [1]" by code_simp
  show ?thesis using g p r c empties_iff_no_agents[OF g p r] by blast
qed


subsection \<open>C4: a move to an invalid destination changes nothing\<close>

text \<open>
  C4. On a grid that is not a torus, \<^verbatim>\<open>move_agent(agent, pos)\<close> with \<open>pos\<close> out of
  bounds raises the out-of-bounds exception of \<^verbatim>\<open>torus_adj\<close> before any mutation: the
  state at the raise is the state before the call, so the agent is still in its old cell,
  its \<^verbatim>\<open>pos\<close> attribute is intact, and every cell and \<^verbatim>\<open>_empties\<close> are unchanged.
\<close>

theorem move_agent_out_of_bounds:
  assumes "\<not> torus s" and "out_of_bounds s pos"
  shows "move_agent a pos s = Inl (OutOfBounds, s)"
  using assms by (simp add: move_agent_def torus_adj_def)

theorem move_agent_out_of_bounds_witness:
  "\<not> torus (state_after (Place_agent 1 (0, 0)) (grid_init MultiGrid 3 3 False (\<lambda>a. None))) \<and>
   out_of_bounds (state_after (Place_agent 1 (0, 0)) (grid_init MultiGrid 3 3 False (\<lambda>a. None))) (3, 0) \<and>
   agent_pos (state_after (Place_agent 1 (0, 0)) (grid_init MultiGrid 3 3 False (\<lambda>a. None))) 1 = Some (0, 0) \<and>
   move_agent 1 (3, 0) (state_after (Place_agent 1 (0, 0)) (grid_init MultiGrid 3 3 False (\<lambda>a. None))) =
     Inl (OutOfBounds, state_after (Place_agent 1 (0, 0)) (grid_init MultiGrid 3 3 False (\<lambda>a. None)))"
proof -
  let ?s = "state_after (Place_agent 1 (0, 0)) (grid_init MultiGrid 3 3 False (\<lambda>a. None))"
  have t: "\<not> torus ?s" by code_simp
  have o: "out_of_bounds ?s (3, 0)" by code_simp
  have p: "agent_pos ?s 1 = Some (0, 0)" by code_simp
  show ?thesis using t o p move_agent_out_of_bounds[OF t o, of 1] by simp
qed


subsection \<open>C5: the exclusive grid refuses an occupied cell and changes nothing\<close>

text \<open>
  C5. On a \<^verbatim>\<open>SingleGrid\<close> in a well-formed state, \<^verbatim>\<open>place_agent\<close> on a coordinate whose
  cell holds at least one agent raises "Cell not empty" (\<open>CellOccupied\<close>), and the state
  at the raise is the state before the call: the target cell, every other cell and
  \<^verbatim>\<open>_empties\<close> are unchanged.
\<close>

theorem SingleGrid_place_agent_occupied:
  assumes "grid_inv s" and "cls s = SingleGrid"
    and "getitem s pos = Inr c" and "c \<noteq> []"
  shows "place_agent a pos s = Inl (CellOccupied, s)"
proof -
  from assms(1) have "shape_inv s" "empties_inv s" by (simp_all add: grid_inv_def)
  then have "pos \<notin> empties_set s" using assms(3,4) by (rule getitem_not_empty)
  with assms(2) show ?thesis
    by (simp add: place_agent_def SingleGrid_place_agent_def is_cell_empty_def)
qed

theorem SingleGrid_place_agent_occupied_witness:
  "grid_inv (state_after (Place_agent 1 (1, 1)) (grid_init SingleGrid 3 3 False (\<lambda>a. None))) \<and>
   cls (state_after (Place_agent 1 (1, 1)) (grid_init SingleGrid 3 3 False (\<lambda>a. None))) = SingleGrid \<and>
   getitem (state_after (Place_agent 1 (1, 1)) (grid_init SingleGrid 3 3 False (\<lambda>a. None))) (1, 1) = Inr [1] \<and>
   place_agent 2 (1, 1) (state_after (Place_agent 1 (1, 1)) (grid_init SingleGrid 3 3 False (\<lambda>a. None))) =
     Inl (CellOccupied, state_after (Place_agent 1 (1, 1)) (grid_init SingleGrid 3 3 False (\<lambda>a. None)))"
proof -
  let ?init = "grid_init SingleGrid 3 3 False (\<lambda>a. None)"
  let ?c = "Place_agent 1 (1, 1)"
  let ?s = "state_after ?c ?init"
  have g0: "grid_inv ?init" by (rule grid_init_inv_unplaced)
  have p0: "placement_call ?init ?c" by (simp add: in_bounds_def)
  have r0: "\<not> isl (run ?c ?init)" by code_simp
  have g: "grid_inv ?s" using g0 p0 r0 by (rule state_after_inv)
  have k: "cls ?s = SingleGrid" by code_simp
  have c: "getitem ?s (1, 1) = Inr [1]" by code_simp
  have n: "[1::nat] \<noteq> []" by simp
  show ?thesis using g k c SingleGrid_place_agent_occupied[OF g k c n, of 2] by blast
qed


subsection \<open>C6: the Moore neighbourhood of the origin on a 5 by 5 torus\<close>

text \<open>
  C6. On a torus grid of 5 by 5 in any well-formed state (whatever the class and the
  agents placed, and whether the cache holds the entry or not),
  \<^verbatim>\<open>get_neighborhood((0, 0), moore=True, include_center=False, radius=1)\<close> returns the
  list of the eight coordinates (0,1), (0,4), (1,0), (1,1), (1,4), (4,0), (4,1), (4,4) in
  this order, which is ascending in (x, y) and without duplicates: the offsets -1 wrap
  to 4 by the floor modulo of \<^verbatim>\<open>torus_adj\<close>. The witness is the scenario of the
  specification, a \<^verbatim>\<open>MultiGrid\<close> with one agent placed at (0, 0).
\<close>

theorem neighborhood_5x5_torus:
  assumes "grid_inv s" and "width s = 5" and "height s = 5" and "torus s"
  shows "(\<exists>s'. get_neighborhood (0, 0) True False 1 s =
            Inr ([(0, 1), (0, 4), (1, 0), (1, 1), (1, 4), (4, 0), (4, 1), (4, 4)], s')) \<and>
         distinct [(0, 1), (0, 4), (1, 0), (1, 1), (1, 4), (4, 0), (4, 1), (4, 4 :: int) :: Coordinate] \<and>
         sorted [(0, 1), (0, 4), (1, 0), (1, 1), (1, 4), (4, 0), (4, 1), (4, 4 :: int) :: Coordinate]"
proof -
  let ?l = "[(0, 1), (0, 4), (1, 0), (1, 1), (1, 4), (4, 0), (4, 1), (4, 4)] :: Coordinate list"
  from assms(1) have sh: "shape_inv s" and ca: "cache_inv s" by (simp_all add: grid_inv_def)
  have "compute_neighborhood (grid_init MultiGrid 5 5 True (\<lambda>a. None)) ((0, 0), True, False, 1)
        = Inr ?l" by code_simp
  then have "compute_neighborhood s ((0, 0), True, False, 1) = Inr ?l"
    using compute_neighborhood_grid_init[OF sh, of MultiGrid "\<lambda>a. None"] assms(2-4) by simp
  with ca have "\<exists>s'. get_neighborhood (0, 0) True False 1 s = Inr (?l, s')"
    by (rule get_neighborhood_total)
  moreover have "distinct ?l" by code_simp
  moreover have "sorted ?l" by code_simp
  ultimately show ?thesis by blast
qed

theorem neighborhood_5x5_torus_witness:
  "grid_inv (state_after (Place_agent 1 (0, 0)) (grid_init MultiGrid 5 5 True (\<lambda>a. None))) \<and>
   width (state_after (Place_agent 1 (0, 0)) (grid_init MultiGrid 5 5 True (\<lambda>a. None))) = 5 \<and>
   height (state_after (Place_agent 1 (0, 0)) (grid_init MultiGrid 5 5 True (\<lambda>a. None))) = 5 \<and>
   torus (state_after (Place_agent 1 (0, 0)) (grid_init MultiGrid 5 5 True (\<lambda>a. None))) \<and>
   getitem (state_after (Place_agent 1 (0, 0)) (grid_init MultiGrid 5 5 True (\<lambda>a. None))) (0, 0) =
     Inr [1] \<and>
   (\<exists>s'. get_neighborhood (0, 0) True False 1
            (state_after (Place_agent 1 (0, 0)) (grid_init MultiGrid 5 5 True (\<lambda>a. None))) =
          Inr ([(0, 1), (0, 4), (1, 0), (1, 1), (1, 4), (4, 0), (4, 1), (4, 4)], s'))"
proof -
  let ?init = "grid_init MultiGrid 5 5 True (\<lambda>a. None)"
  let ?c = "Place_agent 1 (0, 0)"
  let ?s = "state_after ?c ?init"
  have g0: "grid_inv ?init" by (rule grid_init_inv_unplaced)
  have p0: "placement_call ?init ?c" by (simp add: in_bounds_def)
  have r0: "\<not> isl (run ?c ?init)" by code_simp
  have g: "grid_inv ?s" using g0 p0 r0 by (rule state_after_inv)
  have w: "width ?s = 5" by code_simp
  have h: "height ?s = 5" by code_simp
  have t: "torus ?s" by code_simp
  have c: "getitem ?s (0, 0) = Inr [1]" by code_simp
  show ?thesis using g w h t c neighborhood_5x5_torus[OF g w h t] by blast
qed


subsection \<open>C7: the sizes of the neighbourhoods of radius 1\<close>




subsection \<open>C8: placing an agent and removing it again restores the grid\<close>

text \<open>
  C8. The claim: for every agent that is on no cell and every canonical coordinate,
  \<^verbatim>\<open>place_agent(a, pos)\<close> followed by \<^verbatim>\<open>remove_agent(a)\<close> restores \<^verbatim>\<open>_empties\<close> and the
  content of every cell. It fails on the evicting class. On a 3 by 3 \<^verbatim>\<open>Grid\<close> in a
  well-formed state whose cell (1, 1) holds agent 1, with agent 2 on no cell, both calls
  return, but \<^verbatim>\<open>Grid.place_agent\<close> has cleared the cell before it placed agent 2:
  afterwards the cell is empty where it held agent 1, and (1, 1) is in \<^verbatim>\<open>_empties\<close> where
  it was not.
\<close>


theorem place_then_remove_evicting_counterexample:
  "grid_inv (state_after (Place_agent 1 (1, 1)) (grid_init Grid 3 3 False (\<lambda>a. None))) \<and>
   in_bounds (state_after (Place_agent 1 (1, 1)) (grid_init Grid 3 3 False (\<lambda>a. None))) (1, 1) \<and>
   \<not> on_grid (state_after (Place_agent 1 (1, 1)) (grid_init Grid 3 3 False (\<lambda>a. None))) 2 \<and>
   \<not> isl (place_agent 2 (1, 1)
            (state_after (Place_agent 1 (1, 1)) (grid_init Grid 3 3 False (\<lambda>a. None)))) \<and>
   \<not> isl (remove_agent 2
            (state_after (Place_agent 2 (1, 1))
               (state_after (Place_agent 1 (1, 1)) (grid_init Grid 3 3 False (\<lambda>a. None))))) \<and>
   getitem (state_after (Place_agent 1 (1, 1)) (grid_init Grid 3 3 False (\<lambda>a. None))) (1, 1) =
     Inr [1] \<and>
   getitem (run_calls [Place_agent 2 (1, 1), Remove_agent 2]
              (state_after (Place_agent 1 (1, 1)) (grid_init Grid 3 3 False (\<lambda>a. None)))) (1, 1) =
     Inr [] \<and>
   (1, 1) \<notin> empties_set (state_after (Place_agent 1 (1, 1)) (grid_init Grid 3 3 False (\<lambda>a. None))) \<and>
   (1, 1) \<in> empties_set
              (run_calls [Place_agent 2 (1, 1), Remove_agent 2]
                 (state_after (Place_agent 1 (1, 1)) (grid_init Grid 3 3 False (\<lambda>a. None)))) \<and>
   cells (run_calls [Place_agent 2 (1, 1), Remove_agent 2]
            (state_after (Place_agent 1 (1, 1)) (grid_init Grid 3 3 False (\<lambda>a. None)))) \<noteq>
     cells (state_after (Place_agent 1 (1, 1)) (grid_init Grid 3 3 False (\<lambda>a. None)))"
proof -
  let ?init = "grid_init Grid 3 3 False (\<lambda>a. None)"
  let ?c = "Place_agent 1 (1, 1)"
  let ?s = "state_after ?c ?init"
  let ?t = "run_calls [Place_agent 2 (1, 1), Remove_agent 2] ?s"
  have g0: "grid_inv ?init" by (rule grid_init_inv_unplaced)
  have p0: "placement_call ?init ?c" by (simp add: in_bounds_def)
  have r0: "\<not> isl (run ?c ?init)" by code_simp
  have 1: "grid_inv ?s" using g0 p0 r0 by (rule state_after_inv)
  have 2: "in_bounds ?s (1, 1)" by code_simp
  have 3: "\<not> on_grid ?s 2" by code_simp
  have 4: "\<not> isl (place_agent 2 (1, 1) ?s)" by code_simp
  have 5: "\<not> isl (remove_agent 2 (state_after (Place_agent 2 (1, 1)) ?s))" by code_simp
  have 6: "getitem ?s (1, 1) = Inr [1]" by code_simp
  have 7: "getitem ?t (1, 1) = Inr []" by code_simp
  have 8: "(1, 1) \<notin> empties_set ?s" by code_simp
  have 9: "(1, 1) \<in> empties_set ?t" by code_simp
  have 10: "cells ?t \<noteq> cells ?s" by code_simp
  show ?thesis by (intro conjI 1 2 3 4 5 6 7 8 9 10)
qed

text \<open>
  C8 as amended. In a well-formed state, for an agent \<open>a\<close> that is in no cell and a
  canonical coordinate \<open>pos\<close>, \<^verbatim>\<open>place_agent(a, pos)\<close> followed by \<^verbatim>\<open>remove_agent(a)\<close> both
  return and afterwards \<^verbatim>\<open>_grid\<close> (the content of every cell, in order) and \<^verbatim>\<open>_empties\<close>
  are exactly what they were, on a \<^verbatim>\<open>MultiGrid\<close> for every cell, occupied or not, and on
  the two single-occupancy classes when the cell is empty; the whole state is the one
  before but for the \<^verbatim>\<open>pos\<close> attribute of \<open>a\<close>, which is \<^verbatim>\<open>None\<close>. (On an occupied cell
  \<^verbatim>\<open>SingleGrid.place_agent\<close> raises and \<^verbatim>\<open>Grid.place_agent\<close> throws the occupant out.)
\<close>

theorem place_then_remove_restores:
  assumes "grid_inv s" and "in_bounds s pos"
    and "\<not> on_grid s a"
    and "cls s = MultiGrid \<or> is_cell_empty s pos"
  shows "\<exists>s1 s2. place_agent a pos s = Inr s1 \<and> remove_agent a s1 = Inr s2 \<and>
           cells s2 = cells s \<and> empties_set s2 = empties_set s \<and>
           s2 = s\<lparr>agent_pos := (agent_pos s)(a := None)\<rparr>"
proof -
  from assms(1) have sh: "shape_inv s" and em: "empties_inv s" by (simp_all add: grid_inv_def)
  let ?c = "content s pos"
  have na: "a \<notin> set ?c" using content_on_grid[OF sh assms(2), of a] assms(3) by blast
  let ?s1 = "(set_content s pos (?c @ [a]))
                \<lparr>empties_set := empties_set s - {pos},
                 agent_pos := (agent_pos s)(a := Some pos)\<rparr>"
  have m: "MultiGrid_place_agent a pos s = Inr ?s1"
    by (rule MultiGrid_place_agent_in_bounds[OF sh assms(2)])
  have p: "place_agent a pos s = Inr ?s1"
  proof (cases "cls s")
    case MultiGrid
    with m show ?thesis by (simp add: place_agent_def)
  next
    case SingleGrid
    with assms(4) m show ?thesis by (simp add: place_agent_def SingleGrid_place_agent_def)
  next
    case Grid
    with assms(4) m show ?thesis
      by (simp add: place_agent_def Grid_place_agent_def SingleGrid_place_agent_def)
  qed
  have sh1: "shape_inv ?s1" using shape_inv_set_content[OF sh, of pos "?c @ [a]"] by simp
  have ap1: "agent_pos ?s1 a = Some pos" by simp
  have ib1: "in_bounds ?s1 pos" using assms(2) by simp
  have c1: "content ?s1 pos = ?c @ [a]"
    using content_set_content[OF sh assms(2) assms(2), of "?c @ [a]"] by simp
  have r1: "remove1 a (?c @ [a]) = ?c" using na by (simp add: remove1_append)
  have e: "?c = [] \<Longrightarrow> insert pos (empties_set s) = empties_set s"
    "?c \<noteq> [] \<Longrightarrow> empties_set s - {pos} = empties_set s"
    using empties_invD[OF em, of pos] assms(2) by auto
  let ?s2 = "s\<lparr>agent_pos := (agent_pos s)(a := None)\<rparr>"
  have rs: "set_content (set_content s pos (?c @ [a])) pos ?c = s"
    by (rule set_content_restore)
  have "remove_agent a ?s1 = Inr ?s2"
    unfolding remove_agent_in_bounds[OF sh1 ap1 ib1] c1 r1
    using rs by (cases "?c = []") (simp_all add: set_content_upd e)
  with p show ?thesis by (intro exI[of _ ?s1] exI[of _ ?s2]) simp
qed

theorem place_then_remove_restores_witness:
  "grid_inv (state_after (Place_agent 1 (1, 1)) (grid_init MultiGrid 3 3 True (\<lambda>a. None))) \<and>
   in_bounds (state_after (Place_agent 1 (1, 1)) (grid_init MultiGrid 3 3 True (\<lambda>a. None))) (1, 1) \<and>
   getitem (state_after (Place_agent 1 (1, 1)) (grid_init MultiGrid 3 3 True (\<lambda>a. None))) (1, 1) = Inr [1] \<and>
   \<not> on_grid (state_after (Place_agent 1 (1, 1)) (grid_init MultiGrid 3 3 True (\<lambda>a. None))) 2 \<and>
   (\<exists>s1 s2. place_agent 2 (1, 1)
                (state_after (Place_agent 1 (1, 1)) (grid_init MultiGrid 3 3 True (\<lambda>a. None))) = Inr s1 \<and>
      remove_agent 2 s1 = Inr s2 \<and>
      cells s2 = cells (state_after (Place_agent 1 (1, 1)) (grid_init MultiGrid 3 3 True (\<lambda>a. None))) \<and>
      empties_set s2 =
        empties_set (state_after (Place_agent 1 (1, 1)) (grid_init MultiGrid 3 3 True (\<lambda>a. None))))"
proof -
  let ?init = "grid_init MultiGrid 3 3 True (\<lambda>a. None)"
  let ?c = "Place_agent 1 (1, 1)"
  let ?s = "state_after ?c ?init"
  have g0: "grid_inv ?init" by (rule grid_init_inv_unplaced)
  have p0: "placement_call ?init ?c" by (simp add: in_bounds_def)
  have r0: "\<not> isl (run ?c ?init)" by code_simp
  have g: "grid_inv ?s" using g0 p0 r0 by (rule state_after_inv)
  have i: "in_bounds ?s (1, 1)" by code_simp
  have c: "getitem ?s (1, 1) = Inr [1]" by code_simp
  have k: "cls ?s = MultiGrid \<or> is_cell_empty ?s (1, 1)" by code_simp
  have n: "\<not> on_grid ?s 2" by code_simp
  from place_then_remove_restores[OF g i n k] obtain s1 s2 where
    "place_agent 2 (1, 1) ?s = Inr s1" "remove_agent 2 s1 = Inr s2"
    "cells s2 = cells ?s" "empties_set s2 = empties_set ?s" by blast
  then have "\<exists>s1 s2. place_agent 2 (1, 1) ?s = Inr s1 \<and> remove_agent 2 s1 = Inr s2 \<and>
      cells s2 = cells ?s \<and> empties_set s2 = empties_set ?s" by blast
  then show ?thesis using g i c n by blast
qed


subsection \<open>C9: the neighbourhood cache\<close>

text \<open>
  C9. (1) When \<^verbatim>\<open>get_neighborhood\<close> has returned a list for some arguments, every later
  call with the same arguments, after any sequence \<open>cs\<close> of calls on the grid (placement
  calls, item assignments, other neighbourhood queries, returning or raising), returns
  the same list and leaves the state as it is. (2) A call that misses the cache and
  returns has computed the list with the two loops and has inserted exactly one entry,
  the list under its key: the state after the call is the state before it with that one
  entry added to the cache. (3) An entry of the cache is never changed or removed by any
  sequence of calls. Lists are values here; the grid's own methods never mutate a list
  they have stored in the cache.
\<close>

theorem get_neighborhood_cache_consistent:
  "(get_neighborhood pos moore include_center radius s = Inr (l, s1) \<longrightarrow>
      (\<forall>cs. get_neighborhood pos moore include_center radius (run_calls cs s1) =
              Inr (l, run_calls cs s1)) \<and>
      (neighborhood_cache s (pos, moore, include_center, radius) = None \<longrightarrow>
         compute_neighborhood s (pos, moore, include_center, radius) = Inr l \<and>
         s1 = s\<lparr>neighborhood_cache :=
                  (neighborhood_cache s)((pos, moore, include_center, radius) \<mapsto> l)\<rparr>)) \<and>
   (\<forall>key v cs. neighborhood_cache s key = Some v \<longrightarrow>
      neighborhood_cache (run_calls cs s) key = Some v)"
proof (intro conjI impI allI)
  fix cs
  assume "get_neighborhood pos moore include_center radius s = Inr (l, s1)"
  then have "neighborhood_cache s1 (pos, moore, include_center, radius) = Some l"
    by (rule get_neighborhood_cached)
  then have "neighborhood_cache (run_calls cs s1) (pos, moore, include_center, radius) = Some l"
    by (rule run_calls_cache)
  then show "get_neighborhood pos moore include_center radius (run_calls cs s1) =
    Inr (l, run_calls cs s1)" by (rule get_neighborhood_hit)
next
  assume g: "get_neighborhood pos moore include_center radius s = Inr (l, s1)"
    and n: "neighborhood_cache s (pos, moore, include_center, radius) = None"
  show "compute_neighborhood s (pos, moore, include_center, radius) = Inr l"
    using g n by (cases rule: get_neighborhood_cases[of s pos moore include_center radius]) auto
  show "s1 = s\<lparr>neighborhood_cache :=
                  (neighborhood_cache s)((pos, moore, include_center, radius) \<mapsto> l)\<rparr>"
    using g n by (cases rule: get_neighborhood_cases[of s pos moore include_center radius]) auto
next
  fix key v cs
  assume "neighborhood_cache s key = Some v"
  then show "neighborhood_cache (run_calls cs s) key = Some v" by (rule run_calls_cache)
qed


theorem get_neighborhood_cache_consistent_witness:
  "get_neighborhood (0, 0) True False 1 (grid_init MultiGrid 5 5 True (\<lambda>a. None)) =
     Inr ([(0, 1), (0, 4), (1, 0), (1, 1), (1, 4), (4, 0), (4, 1), (4, 4)],
          state_after (Get_neighborhood (0, 0) True False 1)
            (grid_init MultiGrid 5 5 True (\<lambda>a. None))) \<and>
   neighborhood_cache (grid_init MultiGrid 5 5 True (\<lambda>a. None)) ((0, 0), True, False, 1) = None \<and>
   get_neighborhood (0, 0) True False 1
     (run_calls [Place_agent 7 (0, 0), Get_neighborhood (1, 1) False True 2, Move_agent 7 (6, 6)]
        (state_after (Get_neighborhood (0, 0) True False 1)
           (grid_init MultiGrid 5 5 True (\<lambda>a. None)))) =
     Inr ([(0, 1), (0, 4), (1, 0), (1, 1), (1, 4), (4, 0), (4, 1), (4, 4)],
          run_calls [Place_agent 7 (0, 0), Get_neighborhood (1, 1) False True 2, Move_agent 7 (6, 6)]
            (state_after (Get_neighborhood (0, 0) True False 1)
               (grid_init MultiGrid 5 5 True (\<lambda>a. None))))"
proof -
  let ?init = "grid_init MultiGrid 5 5 True (\<lambda>a. None)"
  let ?s1 = "state_after (Get_neighborhood (0, 0) True False 1) ?init"
  let ?l = "[(0, 1), (0, 4), (1, 0), (1, 1), (1, 4), (4, 0), (4, 1), (4, 4)] :: Coordinate list"
  let ?cs = "[Place_agent 7 (0, 0), Get_neighborhood (1, 1) False True 2, Move_agent 7 (6, 6)]"
  have r: "\<not> isl (get_neighborhood (0, 0) True False 1 ?init)" by code_simp
  have v: "fst (projr (get_neighborhood (0, 0) True False 1 ?init)) = ?l" by code_simp
  have g: "get_neighborhood (0, 0) True False 1 ?init = Inr (?l, ?s1)"
    using get_neighborhood_returns[OF r] unfolding v .
  have n: "neighborhood_cache ?init ((0, 0), True, False, 1) = None" by simp
  from get_neighborhood_cache_consistent[of "(0, 0)" True False 1 ?init ?l ?s1] g
  have "get_neighborhood (0, 0) True False 1 (run_calls ?cs ?s1) = Inr (?l, run_calls ?cs ?s1)"
    by blast
  with g n show ?thesis by blast
qed


subsection \<open>C10: item assignment appends to the cell and writes nothing else\<close>

text \<open>
  C10. \<^verbatim>\<open>grid[pos] = agent\<close> on a canonical coordinate of a well-formed grid returns,
  appends the agent to the cell at \<open>pos\<close> and changes nothing else: every field of the
  state but \<^verbatim>\<open>_grid\<close> is as before (in particular \<^verbatim>\<open>_empties\<close> and the \<^verbatim>\<open>pos\<close>
  attributes of all agents), and every other cell is as before. So when the cell was
  empty, \<^verbatim>\<open>is_cell_empty(pos)\<close> still answers true although the cell now holds the agent.
\<close>

theorem setitem_appends_only:
  assumes "grid_inv s" and "in_bounds s pos" and "getitem s pos = Inr c"
  shows "\<exists>s'. setitem pos a s = Inr s' \<and>
           s' = s\<lparr>cells := cells s'\<rparr> \<and>
           getitem s' pos = Inr (c @ [a]) \<and>
           (\<forall>p. in_bounds s p \<and> p \<noteq> pos \<longrightarrow> getitem s' p = getitem s p) \<and>
           empties_set s' = empties_set s \<and>
           agent_pos s' = agent_pos s \<and>
           (c = [] \<longrightarrow> is_cell_empty s' pos \<and> getitem s' pos = Inr [a])"
proof -
  from assms(1) have sh: "shape_inv s" and em: "empties_inv s" by (simp_all add: grid_inv_def)
  have c: "content s pos = c" using getitem_in_bounds[OF sh assms(2)] assms(3) by simp
  let ?s' = "set_content s pos (c @ [a])"
  have r: "setitem pos a s = Inr ?s'"
    using locate_in_bounds[OF sh assms(2)] c
    by (simp add: setitem_def set_content_def content_def)
  have sh': "shape_inv ?s'" by (rule shape_inv_set_content[OF sh])
  have g: "getitem ?s' p = Inr (if p = pos then c @ [a] else content s p)" if "in_bounds s p" for p
  proof -
    from that have "in_bounds ?s' p" by simp
    then have "getitem ?s' p = Inr (content ?s' p)" by (rule getitem_in_bounds[OF sh'])
    then show ?thesis using content_set_content[OF sh assms(2) that] by simp
  qed
  have 1: "?s' = s\<lparr>cells := cells ?s'\<rparr>" by (simp add: set_content_def)
  have 2: "getitem ?s' pos = Inr (c @ [a])" using g[OF assms(2)] by simp
  have 3: "\<forall>p. in_bounds s p \<and> p \<noteq> pos \<longrightarrow> getitem ?s' p = getitem s p"
    using g getitem_in_bounds[OF sh] by simp
  have 4: "c = [] \<longrightarrow> is_cell_empty ?s' pos \<and> getitem ?s' pos = Inr [a]"
    using 2 c assms(2) empties_invD[OF em, of pos] by (auto simp: is_cell_empty_def)
  show ?thesis using r 1 2 3 4 by (intro exI[of _ ?s']) simp
qed

theorem setitem_appends_only_witness:
  "grid_inv (grid_init MultiGrid 3 3 False (\<lambda>a. None)) \<and>
   in_bounds (grid_init MultiGrid 3 3 False (\<lambda>a. None)) (1, 1) \<and>
   getitem (grid_init MultiGrid 3 3 False (\<lambda>a. None)) (1, 1) = Inr [] \<and>
   (\<exists>s'. setitem (1, 1) 7 (grid_init MultiGrid 3 3 False (\<lambda>a. None)) = Inr s' \<and>
      getitem s' (1, 1) = Inr [7] \<and> is_cell_empty s' (1, 1) \<and> agent_pos s' 7 = None)"
proof -
  let ?s = "grid_init MultiGrid 3 3 False (\<lambda>a. None)"
  have g: "grid_inv ?s" by (rule grid_init_inv_unplaced)
  have i: "in_bounds ?s (1, 1)" by (simp add: in_bounds_def)
  have c: "getitem ?s (1, 1) = Inr []" by code_simp
  from setitem_appends_only[OF g i c, of 7] obtain s' where
    "setitem (1, 1) 7 ?s = Inr s'" "getitem s' (1, 1) = Inr [7]" "is_cell_empty s' (1, 1)"
    "agent_pos s' = agent_pos ?s" by auto
  then have "setitem (1, 1) 7 ?s = Inr s' \<and> getitem s' (1, 1) = Inr [7] \<and>
      is_cell_empty s' (1, 1) \<and> agent_pos s' 7 = None" by simp
  then show ?thesis using g i c by blast
qed

end
